theory Spec2Isabelle
  imports Main "HOL-Library.Word"
begin

section \<open>The per-variable chunk cache of libnczarr (zxcache.c)\<close>

text \<open>
  This theory embeds the chunk cache of \<^verbatim>\<open>libnczarr/zxcache.c\<close>: the chunk-key codec
  \<^verbatim>\<open>NCZ_buildchunkkey\<close>, the cache operations \<^verbatim>\<open>NCZ_read_cache_chunk\<close>,
  \<^verbatim>\<open>NCZ_write_cache_chunk\<close>, \<^verbatim>\<open>NCZ_flush_chunk_cache\<close>, \<^verbatim>\<open>NCZ_adjust_var_cache\<close> and the
  static helpers \<^verbatim>\<open>makeroom\<close>, \<^verbatim>\<open>put_chunk\<close>, \<^verbatim>\<open>get_chunk\<close>, \<^verbatim>\<open>NCZ_buildchunkpath\<close>.

  Conventions of the embedding.
  \<^item> Status codes are the datatype \<open>ncstat\<close>; \<open>NC_NOERR\<close> is the only code that C tests
    as zero.
  \<^item> A function that can run into undefined behaviour (a failed \<^verbatim>\<open>assert\<close>, a
    dereferenced \<^verbatim>\<open>NULL\<close> or dangling pointer, a read past the end of an array, a division
    by zero) returns \<open>None\<close> there; \<open>Some\<close> carries what the C function returns and the
    state it leaves.
  \<^item> Chunk indices (\<^verbatim>\<open>size64_t\<close>) and hash keys (\<^verbatim>\<open>ncexhashkey_t\<close>) are 64-bit words;
    sizes and counts, on which the code only compares and divides, are natural numbers.
\<close>

subsection \<open>Status codes\<close>

datatype ncstat =
    NC_NOERR
  | NC_EEMPTY
  | NC_ENOTFOUND
  | NC_ENOMEM
  | NC_EINVAL
  | NC_EOTHER int

type_synonym size64 = "64 word"
type_synonym byte = "8 word"

subsection \<open>The chunk-key codec\<close>

text \<open>
  Modelled from the spec: \<^verbatim>\<open>islegaldimsep\<close>, a macro of a header that is not among the
  sources at hand, accepts the separators of the fixed legal set, \<open>.\<close> and \<open>/\<close>.
\<close>

definition islegaldimsep :: "char \<Rightarrow> bool" where
  "islegaldimsep c = (c = CHR ''.'' \<or> c = CHR ''/'')"

text \<open>
  The C library's \<^verbatim>\<open>snprintf(buf, size, "%lu", n)\<close>: the decimal digits of \<open>n\<close>, most
  significant first, cut to the \<open>sz - 1\<close> characters that fit before the terminator.
\<close>

definition digit_char :: "nat \<Rightarrow> char" where
  "digit_char d = ''0123456789'' ! d"

fun print_lu :: "nat \<Rightarrow> string" where
  "print_lu n = (if n < 10 then [digit_char n] else print_lu (n div 10) @ [digit_char (n mod 10)])"

declare print_lu.simps [simp del]

definition snprintf_lu :: "nat \<Rightarrow> nat \<Rightarrow> string" where
  "snprintf_lu sz n = take (sz - 1) (print_lu n)"

text \<open>
  The cast \<^verbatim>\<open>(unsigned long)chunkindices[r]\<close> keeps the low bits that an
  \<^verbatim>\<open>unsigned long\<close> holds. The width of that type is fixed by the platform, not by the
  sources, so it is a parameter \<open>ulbits\<close> of the model (64 on LP64 systems, 32 on LLP64
  and ILP32 systems).
\<close>

definition cast_ulong :: "nat \<Rightarrow> size64 \<Rightarrow> nat" where
  "cast_ulong ulbits x = unat x mod 2 ^ ulbits"

text \<open>
  \<^verbatim>\<open>NCZ_buildchunkkey(R, chunkindices, dimsep, keyp)\<close>. The loop appends to the byte
  buffer \<open>key\<close>, for \<open>r = 0, \<dots>, R - 1\<close>: the separator when \<open>r > 0\<close>, then the printed
  index. The result is the status (always \<open>NC_NOERR\<close>) and the extracted string.
  The assertion on the separator and a read past the end of \<open>chunkindices\<close> give \<open>None\<close>.
\<close>

definition buildchunkkey_step :: "nat \<Rightarrow> size64 list \<Rightarrow> char \<Rightarrow> string \<Rightarrow> nat \<Rightarrow> string" where
  "buildchunkkey_step ulbits chunkindices dimsep key r =
     (if r > 0 then key @ [dimsep] else key)
       @ snprintf_lu 64 (cast_ulong ulbits (chunkindices ! r))"

definition NCZ_buildchunkkey ::
    "nat \<Rightarrow> nat \<Rightarrow> size64 list \<Rightarrow> char \<Rightarrow> (ncstat \<times> string) option" where
  "NCZ_buildchunkkey ulbits R chunkindices dimsep =
     (if \<not> islegaldimsep dimsep then None
      else if length chunkindices < R then None
      else Some (NC_NOERR, foldl (buildchunkkey_step ulbits chunkindices dimsep) [] [0..<R]))"

subsection \<open>The key format in the words of the specification\<close>

text \<open>
  The specification describes the key as \<open>i0<sep>i1<sep>\<dots><sep>i{rank-1}\<close>, each index
  in base 10 with no padding and no leading zeros. \<open>join_sep\<close> is the joining, and
  \<open>is_decimal_of s n\<close> says that \<open>s\<close> is the base-10 numeral of \<open>n\<close>: digits only, at
  least one, of value \<open>n\<close>, and starting with \<open>0\<close> only when it is the single digit \<open>0\<close>.
\<close>

fun join_sep :: "char \<Rightarrow> string list \<Rightarrow> string" where
  "join_sep sep [] = []"
| "join_sep sep [s] = s"
| "join_sep sep (s # t # ss) = s @ sep # join_sep sep (t # ss)"

definition is_digit :: "char \<Rightarrow> bool" where
  "is_digit c = (c \<in> set ''0123456789'')"

definition digit_val :: "char \<Rightarrow> nat" where
  "digit_val c = length (takeWhile (\<lambda>d. d \<noteq> c) ''0123456789'')"

definition dec_value :: "string \<Rightarrow> nat" where
  "dec_value s = foldl (\<lambda>a c. 10 * a + digit_val c) 0 s"

definition is_decimal_of :: "string \<Rightarrow> nat \<Rightarrow> bool" where
  "is_decimal_of s n =
     (s \<noteq> [] \<and> list_all is_digit s \<and> dec_value s = n \<and> (hd s \<noteq> CHR ''0'' \<or> s = ''0''))"

subsection \<open>Cache entries, the cache and the program state\<close>

text \<open>
  Cache entries are heap objects: the recency list \<^verbatim>\<open>cache->mru\<close> and the hash index
  \<^verbatim>\<open>cache->xcache\<close> both hold pointers to the same \<^verbatim>\<open>NCZCacheEntry\<close>, so the state carries
  an explicit heap from addresses to entries. The buffers an entry owns (\<^verbatim>\<open>data\<close>,
  \<^verbatim>\<open>key.varkey\<close>, \<^verbatim>\<open>key.chunkkey\<close>) are fields of the entry, \<open>None\<close> for \<^verbatim>\<open>NULL\<close>;
  the pointer \<^verbatim>\<open>entry->data\<close> that a caller receives is represented by the address of
  the entry.
\<close>

type_synonym ptr = nat
type_synonym hashkey = "64 word"
type_synonym bytes = "byte list"

record ChunkKey =
  varkey :: "string option"
  chunkkey :: "string option"

record NCZCacheEntry =
  modified :: bool
  indices :: "size64 list"
  key :: ChunkKey
  hashkey :: hashkey
  data :: "bytes option"

text \<open>What \<^verbatim>\<open>calloc(1, sizeof(NCZCacheEntry))\<close> returns: every field zero.\<close>

definition zero_entry :: NCZCacheEntry where
  "zero_entry = \<lparr>modified = False, indices = [],
     key = \<lparr>varkey = None, chunkkey = None\<rparr>, hashkey = 0, data = None\<rparr>"

text \<open>
  The fields of the variable and file structures that the cache reads through
  \<^verbatim>\<open>cache->var\<close>: \<^verbatim>\<open>var->chunk_cache_size\<close>, \<^verbatim>\<open>zvar->chunksize\<close>,
  \<^verbatim>\<open>var->container->nc4_info->no_write\<close>, and the object-store key of the variable
  (what \<^verbatim>\<open>NCZ_varkey\<close> computes).
\<close>

record NC_VAR_INFO_T =
  chunk_cache_size :: nat
  zvar_chunksize :: nat
  no_write :: bool
  varpath :: string

text \<open>
  Modelled from the spec: the indexed LRU container \<^verbatim>\<open>NCxcache\<close> (ncxcache.c is not among
  the sources at hand) is a mapping from hash key to entry that also records recency;
  here the list of its (key, entry) pairs, most recently used first.
\<close>

type_synonym NCxcache = "(hashkey \<times> ptr) list"

record NCZChunkCache =
  var :: NC_VAR_INFO_T
  ndims :: nat
  chunksize :: nat
  dimension_separator :: char
  maxentries :: nat
  fillchunk :: "bytes option"
  mru :: "ptr list"
  xcache :: NCxcache

text \<open>
  The state: the cache, the heap of entries with the next fresh address \<open>brk\<close>, the
  outcomes of the coming allocation requests (\<open>False\<close>: the request fails; when the list
  is used up every request succeeds), and the state \<open>zmap\<close> of the object store.
\<close>

record 'm state =
  cache :: NCZChunkCache
  heap :: "ptr \<rightharpoonup> NCZCacheEntry"
  brk :: ptr
  allocs :: "bool list"
  zmap :: 'm

text \<open>
  What the sources use and do not define is a parameter of the model: the width of
  \<^verbatim>\<open>unsigned long\<close>, the hash function \<^verbatim>\<open>ncxcachekey\<close>, and the object store's
  \<^verbatim>\<open>nczmap_read(map, path, start, count, buf)\<close> and
  \<^verbatim>\<open>nczmap_write(map, path, start, count, buf)\<close>. A read returns a status, the bytes it
  delivers and the store's next state; a write returns a status and the next state.
  The store reports an absent object with \<open>NC_EEMPTY\<close>.
\<close>

record 'm env =
  ulong_bits :: nat
  ncxcachekey :: "size64 list \<Rightarrow> hashkey"
  nczmap_read :: "'m \<Rightarrow> string \<Rightarrow> nat \<Rightarrow> nat \<Rightarrow> ncstat \<times> bytes \<times> 'm"
  nczmap_write :: "'m \<Rightarrow> string \<Rightarrow> nat \<Rightarrow> nat \<Rightarrow> bytes \<Rightarrow> ncstat \<times> 'm"

subsection \<open>The indexed LRU container\<close>

text \<open>
  Modelled from the spec: \<^verbatim>\<open>ncxcachelookup\<close> (ncxcache.c is not among the sources at hand)
  is the non-promoting lookup of a key; an absent key is reported with \<open>NC_ENOTFOUND\<close>,
  the status that \<^verbatim>\<open>NCZ_read_cache_chunk\<close> tests for.
\<close>

definition ncxcachelookup :: "NCxcache \<Rightarrow> hashkey \<Rightarrow> ncstat \<times> ptr option" where
  "ncxcachelookup xc hkey =
     (case map_of xc hkey of None \<Rightarrow> (NC_ENOTFOUND, None) | Some p \<Rightarrow> (NC_NOERR, Some p))"

text \<open>
  Modelled from the spec: \<^verbatim>\<open>ncxcachetouch\<close> (ncxcache.c) promotes the entry of a key to most
  recently used.
\<close>

definition ncxcachetouch :: "NCxcache \<Rightarrow> hashkey \<Rightarrow> ncstat \<times> NCxcache" where
  "ncxcachetouch xc hkey =
     (case map_of xc hkey of
        None \<Rightarrow> (NC_ENOTFOUND, xc)
      | Some p \<Rightarrow> (NC_NOERR, (hkey, p) # filter (\<lambda>kv. fst kv \<noteq> hkey) xc))"

text \<open>
  Modelled from the spec: \<^verbatim>\<open>ncxcacheinsert\<close> (ncxcache.c) inserts, and the new entry
  becomes the most recently used. An entry occupies exactly one slot, so a pair already
  filed under the key gives way.
\<close>

definition ncxcacheinsert :: "NCxcache \<Rightarrow> hashkey \<Rightarrow> ptr \<Rightarrow> ncstat \<times> NCxcache" where
  "ncxcacheinsert xc hkey p = (NC_NOERR, (hkey, p) # filter (\<lambda>kv. fst kv \<noteq> hkey) xc)"

text \<open>
  Modelled from the spec: \<^verbatim>\<open>ncxcacheremove\<close> (ncxcache.c) detaches the entry of a key and
  hands it out.
\<close>

definition ncxcacheremove :: "NCxcache \<Rightarrow> hashkey \<Rightarrow> ncstat \<times> ptr option \<times> NCxcache" where
  "ncxcacheremove xc hkey =
     (case map_of xc hkey of
        None \<Rightarrow> (NC_ENOTFOUND, None, xc)
      | Some p \<Rightarrow> (NC_NOERR, Some p, filter (\<lambda>kv. fst kv \<noteq> hkey) xc))"

text \<open>
  Modelled from the spec: \<^verbatim>\<open>ncxcachelast\<close> (ncxcache.c) reports the least recently used
  entry without removing it, \<^verbatim>\<open>NULL\<close> when the container holds none.
\<close>

definition ncxcachelast :: "NCxcache \<Rightarrow> ptr option" where
  "ncxcachelast xc = (if xc = [] then None else Some (snd (last xc)))"

subsection \<open>Lists, allocation and paths\<close>

text \<open>
  Modelled from the spec: the recency list is a list of entries (nclist.c is not among the
  sources at hand). \<^verbatim>\<open>nclistremove(l, i)\<close> takes the element at position \<open>i\<close> out of
  the list; \<^verbatim>\<open>nclistpush\<close> appends at the end and \<^verbatim>\<open>nclistlength\<close> is the length, written
  \<open>@\<close> and \<open>length\<close> below.
\<close>

definition nclistremove :: "'a list \<Rightarrow> nat \<Rightarrow> 'a list" where
  "nclistremove l i = take i l @ drop (Suc i) l"

text \<open>
  The scan \<^verbatim>\<open>for(i=0;i<nclistlength(cache->mru);i++) {e = nclistget(cache->mru,i);
  if(ptr == e) break;}\<close> of \<^verbatim>\<open>makeroom\<close>: the first position that holds \<open>ptr\<close>, or
  \<open>None\<close> when the scan runs off the end (the two assertions after it then fail).
\<close>

fun mru_scan :: "ptr \<Rightarrow> ptr list \<Rightarrow> nat option" where
  "mru_scan p [] = None"
| "mru_scan p (e # es) = (if p = e then Some 0 else map_option Suc (mru_scan p es))"

text \<open>An allocation request takes the next outcome from \<open>allocs\<close>.\<close>

definition calloc :: "'m state \<Rightarrow> bool \<times> 'm state" where
  "calloc s = (case allocs s of [] \<Rightarrow> (True, s) | b # bs \<Rightarrow> (b, s\<lparr>allocs := bs\<rparr>))"

text \<open>
  \<^verbatim>\<open>nullfree(entry->data); nullfree(entry->key.varkey); nullfree(entry->key.chunkkey);
  nullfree(entry)\<close>: the entry and the buffers it owns leave the heap.
\<close>

definition free_entry :: "ptr \<Rightarrow> 'm state \<Rightarrow> 'm state" where
  "free_entry p s = s\<lparr>heap := (heap s)(p := None)\<rparr>"

text \<open>
  Modelled from the spec: \<^verbatim>\<open>NCZ_varkey\<close>, defined outside the sources at hand, returns the
  stable object-store path prefix of the variable in a freshly allocated string, so the
  call can fail with \<open>NC_ENOMEM\<close>.
\<close>

definition NCZ_varkey :: "'m state \<Rightarrow> ncstat \<times> string option \<times> 'm state" where
  "NCZ_varkey s =
     (case calloc s of
        (False, s1) \<Rightarrow> (NC_ENOMEM, None, s1)
      | (True, s1) \<Rightarrow> (NC_NOERR, Some (varpath (var (cache s1))), s1))"

text \<open>A string pointer read as a string, \<^verbatim>\<open>NULL\<close> as the empty one.\<close>

definition cstring :: "string option \<Rightarrow> string" where
  "cstring p = (case p of None \<Rightarrow> [] | Some str \<Rightarrow> str)"

text \<open>
  Modelled from the spec: \<^verbatim>\<open>NCZ_chunkpath\<close>, defined outside the sources at hand, joins the
  variable's key, the separator and the chunk key into the full object path.
\<close>

definition NCZ_chunkpath :: "ChunkKey \<Rightarrow> char \<Rightarrow> string" where
  "NCZ_chunkpath k dimsep = cstring (varkey k) @ [dimsep] @ cstring (chunkkey k)"

text \<open>
  \<^verbatim>\<open>NCZ_buildchunkpath(cache, chunkindices, key)\<close>: the value left in \<^verbatim>\<open>*key\<close> is \<open>k\<close>
  unless both strings were built.
\<close>

definition NCZ_buildchunkpath ::
    "'m env \<Rightarrow> 'm state \<Rightarrow> size64 list \<Rightarrow> ChunkKey \<Rightarrow> (ncstat \<times> ChunkKey \<times> 'm state) option" where
  "NCZ_buildchunkpath env s chunkindices k =
     (case NCZ_buildchunkkey (ulong_bits env) (ndims (cache s)) chunkindices
             (dimension_separator (cache s)) of
        None \<Rightarrow> None
      | Some (stat, chunkname) \<Rightarrow>
          if stat \<noteq> NC_NOERR then Some (stat, k, s)
          else (case NCZ_varkey s of
                  (stat, vkey, s1) \<Rightarrow>
                    if stat \<noteq> NC_NOERR then Some (stat, k, s1)
                    else Some (NC_NOERR, \<lparr>varkey = vkey, chunkkey = Some chunkname\<rparr>, s1)))"

subsection \<open>Moving chunks between the cache and the store\<close>

text \<open>
  \<^verbatim>\<open>put_chunk(cache, entry)\<close> writes the entry's buffer to the store and returns the
  store's status whatever it is. Handing the store a \<^verbatim>\<open>NULL\<close> buffer is undefined.
\<close>

definition put_chunk :: "'m env \<Rightarrow> 'm state \<Rightarrow> NCZCacheEntry \<Rightarrow> (ncstat \<times> 'm state) option" where
  "put_chunk env s entry =
     (case data entry of
        None \<Rightarrow> None
      | Some d \<Rightarrow>
          (case nczmap_write env (zmap s)
                  (NCZ_chunkpath (key entry) (dimension_separator (cache s)))
                  0 (chunksize (cache s)) d of
             (stat, m) \<Rightarrow> Some (stat, s\<lparr>zmap := m\<rparr>)))"

text \<open>
  The store writes at most \<open>count\<close> bytes into the buffer it is given; the rest of the
  buffer keeps its content.
\<close>

definition store_into :: "bytes \<Rightarrow> nat \<Rightarrow> bytes \<Rightarrow> bytes" where
  "store_into buf count bs = take count bs @ drop (min count (length bs)) buf"

text \<open>
  \<^verbatim>\<open>get_chunk(cache, entry)\<close> reads the object into \<^verbatim>\<open>entry->data\<close> and returns the
  store's status. The entry is the one at address \<open>p\<close>; \<^verbatim>\<open>assert(map && entry->data)\<close>.
\<close>

definition get_chunk :: "'m env \<Rightarrow> 'm state \<Rightarrow> ptr \<Rightarrow> (ncstat \<times> 'm state) option" where
  "get_chunk env s p =
     (case heap s p of
        None \<Rightarrow> None
      | Some entry \<Rightarrow>
          (case data entry of
             None \<Rightarrow> None
           | Some buf \<Rightarrow>
               (case nczmap_read env (zmap s)
                       (NCZ_chunkpath (key entry) (dimension_separator (cache s)))
                       0 (chunksize (cache s)) of
                  (stat, bs, m) \<Rightarrow>
                    Some (stat, s\<lparr>zmap := m,
                      heap := (heap s)(p \<mapsto>
                        entry\<lparr>data := Some (store_into buf (chunksize (cache s)) bs)\<rparr>)\<rparr>))))"

subsection \<open>makeroom\<close>

text \<open>
  One pass through the body of the \<^verbatim>\<open>while\<close> loop of \<^verbatim>\<open>makeroom\<close>. The result is the
  value of \<^verbatim>\<open>stat\<close>, whether the loop goes on (\<open>False\<close> for \<^verbatim>\<open>goto done\<close>) and the state.
  \<^item> \<^verbatim>\<open>e = ncxcachelast(cache->xcache)\<close>; \<^verbatim>\<open>e->hashkey\<close> is undefined when \<open>e\<close> is
    \<^verbatim>\<open>NULL\<close> or dangling.
  \<^item> \<^verbatim>\<open>if((stat = ncxcacheremove(cache->xcache,e->hashkey,&ptr))) goto done;\<close>
  \<^item> \<^verbatim>\<open>assert(e == ptr)\<close>, the scan of the recency list for \<open>ptr\<close> and its assertions.
  \<^item> \<^verbatim>\<open>nclistremove(cache->mru,i); if(e->modified) stat=put_chunk(cache,e);\<close>
  \<^item> the entry is freed.
\<close>

definition makeroom_body :: "'m env \<Rightarrow> 'm state \<Rightarrow> (ncstat \<times> bool \<times> 'm state) option" where
  "makeroom_body env s =
     (case ncxcachelast (xcache (cache s)) of
        None \<Rightarrow> None
      | Some e \<Rightarrow>
          (case heap s e of
             None \<Rightarrow> None
           | Some entry \<Rightarrow>
               (case ncxcacheremove (xcache (cache s)) (hashkey entry) of
                  (stat, ptr, xc) \<Rightarrow>
                    if stat \<noteq> NC_NOERR then Some (stat, False, s\<lparr>cache := (cache s)\<lparr>xcache := xc\<rparr>\<rparr>)
                    else if ptr \<noteq> Some e then None
                    else
                      (case mru_scan e (mru (cache s)) of
                         None \<Rightarrow> None
                       | Some i \<Rightarrow>
                           (case (if modified entry
                                  then put_chunk env
                                         (s\<lparr>cache := (cache s)\<lparr>xcache := xc,
                                              mru := nclistremove (mru (cache s)) i\<rparr>\<rparr>) entry
                                  else Some (stat,
                                         s\<lparr>cache := (cache s)\<lparr>xcache := xc,
                                              mru := nclistremove (mru (cache s)) i\<rparr>\<rparr>)) of
                              None \<Rightarrow> None
                            | Some (stat1, s1) \<Rightarrow> Some (stat1, True, free_entry e s1))))))"

lemma put_chunk_cache: "put_chunk env s entry = Some (stat, s1) \<Longrightarrow> cache s1 = cache s"
  by (auto simp: put_chunk_def split: option.splits prod.splits)

lemma length_nclistremove: "i < length l \<Longrightarrow> length (nclistremove l i) < length l"
  by (simp add: nclistremove_def)

lemma mru_scan_less: "mru_scan p l = Some i \<Longrightarrow> i < length l"
  by (induction l arbitrary: i) (auto split: if_splits)

lemma makeroom_body_shrinks:
  assumes "makeroom_body env s = Some (stat, True, s1)"
  shows "length (mru (cache s1)) < length (mru (cache s))"
  using assms
  by (auto simp: makeroom_body_def free_entry_def length_nclistremove mru_scan_less
      split: option.splits prod.splits if_splits dest!: put_chunk_cache)

text \<open>
  The loop \<^verbatim>\<open>while(nclistlength(cache->mru) > cache->maxentries)\<close>, carrying the value of
  \<^verbatim>\<open>stat\<close>; \<^verbatim>\<open>makeroom\<close> enters it with \<open>NC_NOERR\<close> and returns the last value.
\<close>

function makeroom_loop :: "'m env \<Rightarrow> ncstat \<Rightarrow> 'm state \<Rightarrow> (ncstat \<times> 'm state) option" where
  "makeroom_loop env stat s =
     (if length (mru (cache s)) > maxentries (cache s) then
        (case makeroom_body env s of
           None \<Rightarrow> None
         | Some (stat1, True, s1) \<Rightarrow> makeroom_loop env stat1 s1
         | Some (stat1, False, s1) \<Rightarrow> Some (stat1, s1))
      else Some (stat, s))"
  by pat_completeness auto
termination
  by (relation "measure (\<lambda>(env, stat, s). length (mru (cache s)))")
    (auto dest: makeroom_body_shrinks)

declare makeroom_loop.simps [simp del]

definition makeroom :: "'m env \<Rightarrow> 'm state \<Rightarrow> (ncstat \<times> 'm state) option" where
  "makeroom env s = makeroom_loop env NC_NOERR s"

subsection \<open>Creating an entry\<close>

text \<open>
  Both \<^verbatim>\<open>NCZ_read_cache_chunk\<close> and \<^verbatim>\<open>NCZ_write_cache_chunk\<close> create an entry with the
  same statements: allocate the entry, copy the indices, allocate the zeroed buffer of
  \<open>chunksize\<close> bytes, build the key, set the hash key. Each failure is a
  \<^verbatim>\<open>goto done\<close> with the status and the local \<^verbatim>\<open>entry\<close> as it stands; these two and
  the state are the result.
\<close>

definition create_entry ::
    "'m env \<Rightarrow> 'm state \<Rightarrow> size64 list \<Rightarrow> hashkey \<Rightarrow> (ncstat \<times> ptr option \<times> 'm state) option" where
  "create_entry env s indices0 hkey =
     (case calloc s of
        (False, s1) \<Rightarrow> Some (NC_ENOMEM, None, s1)
      | (True, s1) \<Rightarrow>
          (let p = brk s1;
               e1 = zero_entry\<lparr>indices := take (ndims (cache s1)) indices0\<rparr>
           in case calloc (s1\<lparr>heap := (heap s1)(p \<mapsto> e1), brk := Suc p\<rparr>) of
                (False, s2) \<Rightarrow> Some (NC_ENOMEM, Some p, s2)
              | (True, s2) \<Rightarrow>
                  (let e2 = e1\<lparr>data := Some (replicate (chunksize (cache s2)) 0)\<rparr>
                   in case NCZ_buildchunkpath env (s2\<lparr>heap := (heap s2)(p \<mapsto> e2)\<rparr>)
                             indices0 (key e2) of
                        None \<Rightarrow> None
                      | Some (stat, k, s3) \<Rightarrow>
                          if stat \<noteq> NC_NOERR then Some (stat, Some p, s3)
                          else Some (NC_NOERR, Some p,
                                 s3\<lparr>heap := (heap s3)(p \<mapsto> e2\<lparr>key := k, hashkey := hkey\<rparr>)\<rparr>))))"

subsection \<open>NCZ_read_cache_chunk\<close>

text \<open>
  The code at the label \<^verbatim>\<open>done\<close> of \<^verbatim>\<open>NCZ_read_cache_chunk\<close>:
  \<^verbatim>\<open>if(created && stat == NC_NOERR) stat = NC_EEMPTY;\<close> and the release of a non-null
  \<^verbatim>\<open>entry\<close>. The result of the function is the status, what was stored in
  \<^verbatim>\<open>*datap\<close> (\<open>None\<close> when nothing was) and the state.
\<close>

definition read_done ::
    "bool \<Rightarrow> ncstat \<Rightarrow> ptr option \<Rightarrow> ptr option \<Rightarrow> 'm state \<Rightarrow> ncstat \<times> ptr option \<times> 'm state" where
  "read_done created stat entry datap s =
     (if created \<and> stat = NC_NOERR then NC_EEMPTY else stat,
      datap,
      case entry of None \<Rightarrow> s | Some p \<Rightarrow> free_entry p s)"

text \<open>
  The branch \<^verbatim>\<open>if(entry == NULL)\<close> of \<^verbatim>\<open>NCZ_read_cache_chunk\<close>: make room, create the
  entry, fetch the chunk. \<open>NC_EEMPTY\<close> from the store is the absent chunk: the entry
  is marked modified unless the file is read-only and, \<^verbatim>\<open>FILLONREAD\<close> being undefined,
  its buffer is set to zero bytes. Then \<^verbatim>\<open>nclistpush(cache->mru,entry)\<close> and
  \<^verbatim>\<open>ncxcacheinsert\<close>.
\<close>

definition read_miss ::
    "'m env \<Rightarrow> 'm state \<Rightarrow> size64 list \<Rightarrow> hashkey \<Rightarrow> (ncstat \<times> ptr option \<times> 'm state) option" where
  "read_miss env s indices0 hkey =
     (case makeroom env s of
        None \<Rightarrow> None
      | Some (stat, s1) \<Rightarrow>
          if stat \<noteq> NC_NOERR then Some (read_done False stat None None s1)
          else
            (case create_entry env s1 indices0 hkey of
               None \<Rightarrow> None
             | Some (stat, None, s2) \<Rightarrow>
                 if stat \<noteq> NC_NOERR then Some (read_done False stat None None s2) else None
             | Some (stat, Some p, s2) \<Rightarrow>
                 if stat \<noteq> NC_NOERR then Some (read_done False stat (Some p) None s2)
                 else
                   (case get_chunk env s2 p of
                      None \<Rightarrow> None
                    | Some (stat, s3) \<Rightarrow>
                        if stat \<noteq> NC_NOERR \<and> stat \<noteq> NC_EEMPTY
                        then Some (read_done False stat (Some p) None s3)
                        else
                          (case heap s3 p of
                             None \<Rightarrow> None
                           | Some entry \<Rightarrow>
                               (let created = (stat = NC_EEMPTY);
                                    entry1 =
                                      (if created
                                       then entry\<lparr>modified := \<not> no_write (var (cache s3)),
                                              data := Some (replicate (chunksize (cache s3)) 0)\<rparr>
                                       else entry);
                                    s4 = s3\<lparr>heap := (heap s3)(p \<mapsto> entry1),
                                           cache := (cache s3)\<lparr>mru := mru (cache s3) @ [p]\<rparr>\<rparr>
                                in case ncxcacheinsert (xcache (cache s4)) (hashkey entry1) p of
                                     (stat, xc) \<Rightarrow>
                                       if stat \<noteq> NC_NOERR
                                       then Some (read_done created stat (Some p) None
                                                   (s4\<lparr>cache := (cache s4)\<lparr>xcache := xc\<rparr>\<rparr>))
                                       else Some (read_done created NC_NOERR None (Some p)
                                                   (s4\<lparr>cache := (cache s4)\<lparr>xcache := xc\<rparr>\<rparr>)))))))"

text \<open>
  \<^verbatim>\<open>NCZ_read_cache_chunk(cache, indices, datap)\<close>. The hash key digests the first
  \<open>ndims\<close> indices, so a shorter array is read past its end. On a hit the entry is
  promoted and its buffer handed out.
\<close>

definition NCZ_read_cache_chunk ::
    "'m env \<Rightarrow> 'm state \<Rightarrow> size64 list \<Rightarrow> (ncstat \<times> ptr option \<times> 'm state) option" where
  "NCZ_read_cache_chunk env s indices0 =
     (if length indices0 < ndims (cache s) then None
      else
        (let hkey = ncxcachekey env (take (ndims (cache s)) indices0)
         in case ncxcachelookup (xcache (cache s)) hkey of
              (stat, entry) \<Rightarrow>
                if stat = NC_NOERR then
                  (case entry of
                     None \<Rightarrow>
                       read_miss env
                         (s\<lparr>cache := (cache s)\<lparr>xcache := snd (ncxcachetouch (xcache (cache s)) hkey)\<rparr>\<rparr>)
                         indices0 hkey
                   | Some p \<Rightarrow>
                       (case heap s p of
                          None \<Rightarrow> None
                        | Some e \<Rightarrow>
                            Some (read_done False NC_NOERR None
                                   (if data e = None then None else Some p)
                                   (s\<lparr>cache := (cache s)\<lparr>xcache :=
                                        snd (ncxcachetouch (xcache (cache s)) hkey)\<rparr>\<rparr>))))
                else if stat = NC_ENOTFOUND then read_miss env s indices0 hkey
                else Some (read_done False stat entry None s)))"

subsection \<open>NCZ_write_cache_chunk\<close>

text \<open>
  \<^verbatim>\<open>NCZ_write_cache_chunk(cache, indices, datap)\<close>. The local \<^verbatim>\<open>entry\<close> is \<^verbatim>\<open>NULL\<close>
  when it is tested, so the branch that creates an entry is always taken; the entry is
  marked modified and pushed on the recency list. The function looks nothing up, inserts
  nothing into the hash index and stores nothing in \<^verbatim>\<open>*datap\<close>.
\<close>

definition NCZ_write_cache_chunk ::
    "'m env \<Rightarrow> 'm state \<Rightarrow> size64 list \<Rightarrow> (ncstat \<times> ptr option \<times> 'm state) option" where
  "NCZ_write_cache_chunk env s indices0 =
     (if length indices0 < ndims (cache s) then None
      else
        (let hkey = ncxcachekey env (take (ndims (cache s)) indices0)
         in case makeroom env s of
              None \<Rightarrow> None
            | Some (stat, s1) \<Rightarrow>
                if stat \<noteq> NC_NOERR then Some (stat, None, s1)
                else
                  (case create_entry env s1 indices0 hkey of
                     None \<Rightarrow> None
                   | Some (stat, None, s2) \<Rightarrow>
                       if stat \<noteq> NC_NOERR then Some (stat, None, s2) else None
                   | Some (stat, Some p, s2) \<Rightarrow>
                       if stat \<noteq> NC_NOERR then Some (stat, None, free_entry p s2)
                       else
                         (case heap s2 p of
                            None \<Rightarrow> None
                          | Some entry \<Rightarrow>
                              Some (NC_NOERR, None,
                                s2\<lparr>heap := (heap s2)(p \<mapsto> entry\<lparr>modified := True\<rparr>),
                                   cache := (cache s2)\<lparr>mru := mru (cache s2) @ [p]\<rparr>\<rparr>)))))"

subsection \<open>NCZ_flush_chunk_cache\<close>

text \<open>
  The loop of \<^verbatim>\<open>NCZ_flush_chunk_cache\<close> over the positions of the recency list, which
  the loop does not change: a modified entry is written with \<^verbatim>\<open>put_chunk\<close>, a failure
  is a \<^verbatim>\<open>goto done\<close>, and then \<^verbatim>\<open>entry->modified = 0\<close>.
\<close>

fun flush_loop :: "'m env \<Rightarrow> ptr list \<Rightarrow> 'm state \<Rightarrow> (ncstat \<times> 'm state) option" where
  "flush_loop env [] s = Some (NC_NOERR, s)"
| "flush_loop env (p # ps) s =
     (case heap s p of
        None \<Rightarrow> None
      | Some entry \<Rightarrow>
          (case (if modified entry then put_chunk env s entry else Some (NC_NOERR, s)) of
             None \<Rightarrow> None
           | Some (stat, s1) \<Rightarrow>
               if stat \<noteq> NC_NOERR then Some (stat, s1)
               else flush_loop env ps
                      (s1\<lparr>heap := (heap s1)(p \<mapsto> entry\<lparr>modified := False\<rparr>)\<rparr>)))"

definition NCZ_cache_size :: "NCZChunkCache \<Rightarrow> nat" where
  "NCZ_cache_size c = length (mru c)"

definition NCZ_flush_chunk_cache :: "'m env \<Rightarrow> 'm state \<Rightarrow> (ncstat \<times> 'm state) option" where
  "NCZ_flush_chunk_cache env s =
     (if NCZ_cache_size (cache s) = 0 then Some (NC_NOERR, s)
      else flush_loop env (mru (cache s)) s)"

subsection \<open>NCZ_adjust_var_cache\<close>

text \<open>
  Modelled from the spec: \<^verbatim>\<open>floordiv\<close>, a macro of a header that is not among the sources
  at hand, is the floor of the quotient.
\<close>

definition floordiv :: "nat \<Rightarrow> nat \<Rightarrow> nat" where
  "floordiv x y = x div y"

text \<open>
  \<^verbatim>\<open>NCZ_adjust_var_cache(grp, var)\<close>: the capacity is set to 0 and \<^verbatim>\<open>makeroom\<close> is run,
  its status ignored; then the capacity is recomputed from the byte budget
  \<^verbatim>\<open>var->chunk_cache_size\<close>, the chunk size is refreshed and the fill chunk is freed.
  A division by a zero chunk size is undefined.
\<close>

definition NCZ_adjust_var_cache :: "'m env \<Rightarrow> 'm state \<Rightarrow> (ncstat \<times> 'm state) option" where
  "NCZ_adjust_var_cache env s =
     (case makeroom env (s\<lparr>cache := (cache s)\<lparr>maxentries := 0\<rparr>\<rparr>) of
        None \<Rightarrow> None
      | Some (stat, s1) \<Rightarrow>
          (let cachesize = chunk_cache_size (var (cache s1));
               zchunksize = zvar_chunksize (var (cache s1))
           in if zchunksize = 0 then None
              else
                (let nelems = floordiv cachesize zchunksize;
                     nelems1 = (if nelems = 0 then 1 else nelems)
                 in Some (NC_NOERR,
                      s1\<lparr>cache := (cache s1)\<lparr>maxentries := nelems1, chunksize := zchunksize,
                           fillchunk := None\<rparr>\<rparr>))))"

section \<open>Notions used to state the properties\<close>

text \<open>
  A cache is consistent when the hash index and the recency list hold the same entries,
  each once, every indexed entry is a live heap object filed under its own hash key and
  owning a buffer, and every live object lies below the next fresh address.
\<close>

definition wf_cache :: "'m state \<Rightarrow> bool" where
  "wf_cache s \<longleftrightarrow>
     distinct (map fst (xcache (cache s))) \<and>
     distinct (map snd (xcache (cache s))) \<and>
     distinct (mru (cache s)) \<and>
     set (mru (cache s)) = snd ` set (xcache (cache s)) \<and>
     (\<forall>kv \<in> set (xcache (cache s)).
        \<exists>e. heap s (snd kv) = Some e \<and> hashkey e = fst kv \<and> data e \<noteq> None) \<and>
     (\<forall>p \<in> dom (heap s). p < brk s)"

text \<open>The fields of the cache that only \<^verbatim>\<open>NCZ_adjust_var_cache\<close> changes.\<close>

definition cache_config :: "NCZChunkCache \<Rightarrow> NC_VAR_INFO_T \<times> nat \<times> nat \<times> char \<times> nat \<times> bytes option" where
  "cache_config c = (var c, ndims c, chunksize c, dimension_separator c, maxentries c, fillchunk c)"

text \<open>
  What a caller does with the pointer it was handed: read the buffer, or fill it.
\<close>

definition buffer_of :: "'m state \<Rightarrow> ptr \<Rightarrow> bytes option" where
  "buffer_of s p = (case heap s p of None \<Rightarrow> None | Some e \<Rightarrow> data e)"

definition caller_fill :: "'m state \<Rightarrow> ptr \<Rightarrow> bytes \<Rightarrow> 'm state" where
  "caller_fill s p buf =
     (case heap s p of None \<Rightarrow> s | Some e \<Rightarrow> s\<lparr>heap := (heap s)(p \<mapsto> e\<lparr>data := Some buf\<rparr>)\<rparr>)"

text \<open>
  The store's answer to writing one entry, and the store as it is after the modified
  entries of a list have been written one after the other.
\<close>

definition entry_write :: "'m env \<Rightarrow> NCZChunkCache \<Rightarrow> NCZCacheEntry \<Rightarrow> 'm \<Rightarrow> ncstat \<times> 'm" where
  "entry_write env c e m =
     nczmap_write env m (NCZ_chunkpath (key e) (dimension_separator c)) 0 (chunksize c)
       (case data e of None \<Rightarrow> [] | Some d \<Rightarrow> d)"

fun flushed_store :: "'m env \<Rightarrow> NCZChunkCache \<Rightarrow> (ptr \<rightharpoonup> NCZCacheEntry) \<Rightarrow> ptr list \<Rightarrow> 'm \<Rightarrow> 'm" where
  "flushed_store env c h [] m = m"
| "flushed_store env c h (p # ps) m =
     flushed_store env c h ps
       (case h p of
          None \<Rightarrow> m
        | Some e \<Rightarrow> if modified e then snd (entry_write env c e m) else m)"

text \<open>
  Sequences of public operations. An operation that returns a status, whatever it is,
  is followed by the next one; one that runs into undefined behaviour ends the run.
\<close>

datatype cache_op = Read "size64 list" | Write "size64 list" | Flush

fun apply_op :: "'m env \<Rightarrow> 'm state \<Rightarrow> cache_op \<Rightarrow> 'm state option" where
  "apply_op env s (Read idx) = map_option (\<lambda>r. snd (snd r)) (NCZ_read_cache_chunk env s idx)"
| "apply_op env s (Write idx) = map_option (\<lambda>r. snd (snd r)) (NCZ_write_cache_chunk env s idx)"
| "apply_op env s Flush = map_option snd (NCZ_flush_chunk_cache env s)"

fun run_ops :: "'m env \<Rightarrow> 'm state \<Rightarrow> cache_op list \<Rightarrow> 'm state option" where
  "run_ops env s [] = Some s"
| "run_ops env s (opn # ops) =
     (case apply_op env s opn of None \<Rightarrow> None | Some s1 \<Rightarrow> run_ops env s1 ops)"

fun read_or_flush :: "nat \<Rightarrow> cache_op \<Rightarrow> bool" where
  "read_or_flush n (Read idx) = (n \<le> length idx)"
| "read_or_flush n (Write idx) = False"
| "read_or_flush n Flush = True"

text \<open>
  A concrete environment and concrete states, the inputs at which the theorems below are
  instantiated: an object store kept as an association list, whose writes fail on the
  paths that \<open>bad\<close> selects, and an empty cache of rank 1 with chunks of two bytes.
\<close>

type_synonym objects = "(string \<times> bytes) list"

definition test_env :: "(string \<Rightarrow> bool) \<Rightarrow> objects env" where
  "test_env bad =
     \<lparr>ulong_bits = 64,
      ncxcachekey = foldl (\<lambda>h i. 31 * h + i) 7,
      nczmap_read = (\<lambda>m path start count.
         case map_of m path of None \<Rightarrow> (NC_EEMPTY, [], m) | Some d \<Rightarrow> (NC_NOERR, d, m)),
      nczmap_write = (\<lambda>m path start count d.
         if bad path then (NC_EOTHER (- 1), m) else (NC_NOERR, (path, take count d) # m))\<rparr>"

definition test_var :: "bool \<Rightarrow> NC_VAR_INFO_T" where
  "test_var ro = \<lparr>chunk_cache_size = 4, zvar_chunksize = 2, no_write = ro, varpath = ''/v''\<rparr>"

definition test_state :: "bool \<Rightarrow> nat \<Rightarrow> bytes option \<Rightarrow> objects \<Rightarrow> objects state" where
  "test_state ro n fill m =
     \<lparr>cache = \<lparr>var = test_var ro, ndims = 1, chunksize = 2, dimension_separator = CHR ''.'',
         maxentries = n, fillchunk = fill, mru = [], xcache = []\<rparr>,
      heap = Map.empty, brk = 0, allocs = [], zmap = m\<rparr>"

text \<open>
  A cache of capacity \<open>n\<close> that holds the chunks 0 and 1, chunk 0 the least recently
  used, with the modified flags \<open>m0\<close> and \<open>m1\<close>; chunk \<open>i\<close> holds the bytes \<open>i, i\<close>.
\<close>

definition test_entry :: "nat \<Rightarrow> bool \<Rightarrow> NCZCacheEntry" where
  "test_entry i m =
     \<lparr>modified = m, indices = [of_nat i],
      key = \<lparr>varkey = Some ''/v'', chunkkey = Some (print_lu i)\<rparr>,
      hashkey = 217 + of_nat i, data = Some [of_nat i, of_nat i]\<rparr>"

definition test_state2 :: "bool \<Rightarrow> bool \<Rightarrow> nat \<Rightarrow> objects state" where
  "test_state2 m0 m1 n =
     \<lparr>cache = \<lparr>var = test_var False, ndims = 1, chunksize = 2, dimension_separator = CHR ''.'',
         maxentries = n, fillchunk = None, mru = [0, 1], xcache = [(218, 1), (217, 0)]\<rparr>,
      heap = [0 \<mapsto> test_entry 0 m0, 1 \<mapsto> test_entry 1 m1], brk = 2, allocs = [], zmap = []\<rparr>"

section \<open>Properties of the chunk-key codec\<close>

lemma digit_cases: "d < 10 \<Longrightarrow> d = 0 \<or> d = 1 \<or> d = 2 \<or> d = 3 \<or> d = 4 \<or> d = 5 \<or> d = 6 \<or> d = 7 \<or> d = 8 \<or> d = (9::nat)"
  by arith

lemma digit_val_digit_char: "d < 10 \<Longrightarrow> digit_val (digit_char d) = d"
  using digit_cases [of d] by (auto simp: digit_val_def digit_char_def)

lemma is_digit_digit_char: "d < 10 \<Longrightarrow> is_digit (digit_char d)"
  using digit_cases [of d] by (auto simp: is_digit_def digit_char_def)

lemma digit_char_zero_iff: "d < 10 \<Longrightarrow> digit_char d = CHR ''0'' \<longleftrightarrow> d = 0"
  using digit_cases [of d] by (auto simp: digit_char_def)

lemma print_lu_nonempty: "print_lu n \<noteq> []"
  by (subst print_lu.simps) simp

lemma print_lu_digits: "list_all is_digit (print_lu n)"
proof (induction n rule: print_lu.induct)
  case (1 n)
  show ?case
  proof (cases "n < 10")
    case True
    then show ?thesis by (subst print_lu.simps) (simp add: is_digit_digit_char)
  next
    case False
    with 1 show ?thesis by (subst print_lu.simps) (simp add: is_digit_digit_char)
  qed
qed

lemma dec_value_snoc: "dec_value (s @ [c]) = 10 * dec_value s + digit_val c"
  by (simp add: dec_value_def)

lemma dec_value_print_lu: "dec_value (print_lu n) = n"
proof (induction n rule: print_lu.induct)
  case (1 n)
  show ?case
  proof (cases "n < 10")
    case True
    then show ?thesis
      by (subst print_lu.simps) (simp add: dec_value_def digit_val_digit_char)
  next
    case False
    with 1 have "dec_value (print_lu (n div 10)) = n div 10" by simp
    with False show ?thesis
      by (subst print_lu.simps) (simp add: dec_value_snoc digit_val_digit_char)
  qed
qed

lemma hd_print_lu: "hd (print_lu n) = CHR ''0'' \<Longrightarrow> n = 0"
proof (induction n rule: print_lu.induct)
  case (1 n)
  show ?case
  proof (cases "n < 10")
    case True
    with 1(2) show ?thesis
      by (subst (asm) print_lu.simps) (simp add: digit_char_zero_iff)
  next
    case False
    with 1(2) have "hd (print_lu (n div 10)) = CHR ''0''"
      by (subst (asm) print_lu.simps) (simp add: print_lu_nonempty)
    with 1(1) False have "n div 10 = 0" by simp
    with False show ?thesis by simp
  qed
qed

lemma print_lu_0: "print_lu 0 = ''0''"
  by (subst print_lu.simps) (simp add: digit_char_def)

lemma print_lu_decimal: "is_decimal_of (print_lu n) n"
  unfolding is_decimal_of_def
  using print_lu_nonempty print_lu_digits dec_value_print_lu hd_print_lu print_lu_0 by metis

lemma length_print_lu: "0 < k \<Longrightarrow> n < 10 ^ k \<Longrightarrow> length (print_lu n) \<le> k"
proof (induction n arbitrary: k rule: print_lu.induct)
  case (1 n)
  show ?case
  proof (cases "n < 10")
    case True
    with 1(2) show ?thesis by (subst print_lu.simps) simp
  next
    case False
    have k1: "1 < k"
    proof (rule ccontr)
      assume "\<not> 1 < k"
      then have "k = 0 \<or> k = 1" by arith
      with False 1(3) show False by auto
    qed
    then obtain j where j: "k = Suc j" "0 < j" by (cases k) auto
    with 1(3) have "n div 10 < 10 ^ j" by (simp add: less_mult_imp_div_less mult.commute)
    with 1(1) [OF False j(2)] have "length (print_lu (n div 10)) \<le> j" by simp
    with False j show ?thesis by (subst print_lu.simps) simp
  qed
qed

lemma snprintf_lu_64: "n < 2 ^ 64 \<Longrightarrow> snprintf_lu 64 n = print_lu n"
proof -
  assume "n < 2 ^ 64"
  then have "n < 10 ^ 20" by simp
  then have "length (print_lu n) \<le> 20" by (rule length_print_lu [rotated]) simp
  then show ?thesis by (simp add: snprintf_lu_def)
qed

lemma cast_ulong_id: "64 \<le> ulbits \<Longrightarrow> cast_ulong ulbits x = unat x"
proof -
  assume h: "64 \<le> ulbits"
  have "unat x < 2 ^ 64" using unsigned_less [of x] by simp
  also have "(2::nat) ^ 64 \<le> 2 ^ ulbits" using h by (rule power_increasing) simp
  finally show ?thesis by (simp add: cast_ulong_def)
qed


lemma join_sep_snoc:
  "join_sep sep (ss @ [s]) = (if ss = [] then s else join_sep sep ss @ sep # s)"
  by (induction sep ss rule: join_sep.induct) auto

lemma buildchunkkey_loop:
  "R \<le> length idx \<Longrightarrow>
   foldl (buildchunkkey_step ulbits idx sep) [] [0..<R]
     = join_sep sep (map (\<lambda>i. snprintf_lu 64 (cast_ulong ulbits i)) (take R idx))"
proof (induction R)
  case 0
  show ?case by simp
next
  case (Suc R)
  then have "R < length idx" by simp
  then have t: "take (Suc R) idx = take R idx @ [idx ! R]"
    by (simp add: take_Suc_conv_app_nth)
  from Suc have ih: "foldl (buildchunkkey_step ulbits idx sep) [] [0..<R]
     = join_sep sep (map (\<lambda>i. snprintf_lu 64 (cast_ulong ulbits i)) (take R idx))" by simp
  show ?case
  proof (cases "R = 0")
    case True
    then show ?thesis unfolding t by (simp add: buildchunkkey_step_def)
  next
    case False
    with \<open>R < length idx\<close> have "take R idx \<noteq> []" by auto
    then have "foldl (buildchunkkey_step ulbits idx sep) [] [0..<Suc R]
        = buildchunkkey_step ulbits idx sep
            (join_sep sep (map (\<lambda>i. snprintf_lu 64 (cast_ulong ulbits i)) (take R idx))) R"
      by (simp add: ih)
    also have "\<dots> = join_sep sep (map (\<lambda>i. snprintf_lu 64 (cast_ulong ulbits i)) (take R idx))
        @ sep # snprintf_lu 64 (cast_ulong ulbits (idx ! R))"
      using False by (simp add: buildchunkkey_step_def)
    finally show ?thesis
      unfolding t using \<open>take R idx \<noteq> []\<close> by (simp add: join_sep_snoc)
  qed
qed

lemma buildchunkkey_eq:
  assumes "islegaldimsep sep" and "R \<le> length idx" and "64 \<le> ulbits"
  shows "NCZ_buildchunkkey ulbits R idx sep
    = Some (NC_NOERR, join_sep sep (map (\<lambda>i. print_lu (unat i)) (take R idx)))"
proof -
  have "snprintf_lu 64 (cast_ulong ulbits i) = print_lu (unat i)" for i :: size64
  proof -
    have "unat i < 2 ^ 64" using unsigned_less [of i] by simp
    then show ?thesis using assms(3) by (simp add: cast_ulong_id snprintf_lu_64)
  qed
  then show ?thesis
    using assms(1,2) by (simp add: NCZ_buildchunkkey_def buildchunkkey_loop)
qed

lemma sep_not_digit: "islegaldimsep sep \<Longrightarrow> \<not> is_digit sep"
  by (auto simp: islegaldimsep_def is_digit_def)

lemma sep_notin_print_lu: "islegaldimsep sep \<Longrightarrow> sep \<notin> set (print_lu n)"
  using print_lu_digits [of n] sep_not_digit [of sep] by (auto simp: list_all_iff)

lemma append_sep_eq:
  "sep \<notin> set x \<Longrightarrow> sep \<notin> set y \<Longrightarrow> x @ sep # r = y @ sep # t \<Longrightarrow> x = y \<and> r = t"
proof (induction x arbitrary: y)
  case Nil
  then show ?case by (cases y) auto
next
  case (Cons a x)
  then show ?case by (cases y) auto
qed

lemma join_sep_inj:
  "length xs = length ys \<Longrightarrow> \<forall>s \<in> set xs \<union> set ys. sep \<notin> set s \<Longrightarrow>
   join_sep sep xs = join_sep sep ys \<Longrightarrow> xs = ys"
proof (induction xs ys rule: list_induct2)
  case Nil
  show ?case by simp
next
  case (Cons x xs y ys)
  show ?case
  proof (cases xs)
    case Nil
    with Cons(1) have "ys = []" by simp
    with Nil Cons(4) show ?thesis by simp
  next
    case xs: (Cons x' xs')
    with Cons(1) obtain y' ys' where ys: "ys = y' # ys'" by (cases ys) auto
    from Cons(4) xs ys have "x @ sep # join_sep sep xs = y @ sep # join_sep sep ys" by simp
    moreover from Cons(3) have "sep \<notin> set x" "sep \<notin> set y" by auto
    ultimately have xy: "x = y" and j: "join_sep sep xs = join_sep sep ys"
      by (auto dest: append_sep_eq)
    from Cons(3) have "\<forall>s \<in> set xs \<union> set ys. sep \<notin> set s" by auto
    then have "xs = ys" using j by (rule Cons(2))
    with xy show ?thesis by simp
  qed
qed

lemma print_lu_inj: "print_lu a = print_lu b \<Longrightarrow> a = b"
  by (metis dec_value_print_lu)

lemma print_index_inj: "inj (\<lambda>i :: size64. print_lu (unat i))"
proof (rule injI)
  fix x y :: size64
  assume "print_lu (unat x) = print_lu (unat y)"
  then have "unat x = unat y" by (rule print_lu_inj)
  then show "x = y" by (simp only: word_unat_eq_iff)
qed

section \<open>Properties of the cache operations\<close>

lemma map_of_last:
  "xc \<noteq> [] \<Longrightarrow> distinct (map fst xc) \<Longrightarrow> map_of xc (fst (last xc)) = Some (snd (last xc))"
  by simp

lemma snd_filter_key:
  assumes "distinct (map fst xc)" and "distinct (map snd xc)" and "(h, e) \<in> set xc"
  shows "snd ` set (filter (\<lambda>kv. fst kv \<noteq> h) xc) = snd ` set xc - {e}"
proof -
  have inj: "inj_on snd (set xc)" using assms(2) by (simp add: distinct_map)
  have "set (filter (\<lambda>kv. fst kv \<noteq> h) xc) = set xc - {(h, e)}"
    using assms(1,3) by (auto dest: eq_key_imp_eq_value)
  moreover have "snd ` (set xc - {(h, e)}) = snd ` set xc - snd ` {(h, e)}"
    using inj assms(3) by (intro inj_on_image_set_diff [of snd "set xc"]) auto
  ultimately show ?thesis by simp
qed

lemma mru_scan_remove1:
  "p \<in> set l \<Longrightarrow> \<exists>i. mru_scan p l = Some i \<and> nclistremove l i = remove1 p l"
proof (induction l)
  case Nil
  then show ?case by simp
next
  case (Cons a l)
  show ?case
  proof (cases "p = a")
    case True
    then show ?thesis by (simp add: nclistremove_def)
  next
    case False
    with Cons obtain i where "mru_scan p l = Some i" "nclistremove l i = remove1 p l" by auto
    with False show ?thesis by (simp add: nclistremove_def)
  qed
qed

lemma makeroom_body_wf:
  assumes wf: "wf_cache s" and ne: "mru (cache s) \<noteq> []"
  shows "\<exists>stat s1. makeroom_body env s = Some (stat, True, s1) \<and> wf_cache s1
           \<and> Suc (length (mru (cache s1))) = length (mru (cache s))
           \<and> cache_config (cache s1) = cache_config (cache s)
           \<and> brk s1 = brk s \<and> allocs s1 = allocs s
           \<and> set (mru (cache s1)) \<subseteq> set (mru (cache s))
           \<and> set (xcache (cache s1)) \<subseteq> set (xcache (cache s))
           \<and> dom (heap s1) = dom (heap s) - (set (mru (cache s)) - set (mru (cache s1)))"
proof -
  let ?xc = "xcache (cache s)"
  from wf have d1: "distinct (map fst ?xc)" and d2: "distinct (map snd ?xc)"
    and d3: "distinct (mru (cache s))" and eq: "set (mru (cache s)) = snd ` set ?xc"
    and hp: "\<forall>kv \<in> set ?xc. \<exists>e. heap s (snd kv) = Some e \<and> hashkey e = fst kv \<and> data e \<noteq> None"
    and fr: "\<forall>p \<in> dom (heap s). p < brk s"
    by (simp_all add: wf_cache_def)
  from ne eq have xne: "?xc \<noteq> []" by auto
  obtain h e where last: "last ?xc = (h, e)" by (cases "last ?xc")
  with xne have mem: "(h, e) \<in> set ?xc" using last_in_set [of ?xc] by simp
  with hp obtain entry d where ent: "heap s e = Some entry" "hashkey entry = h" "data entry = Some d"
    by fastforce
  from mem d1 have look: "map_of ?xc h = Some e" by simp
  from mem eq have "e \<in> set (mru (cache s))" by force
  then obtain i where scan: "mru_scan e (mru (cache s)) = Some i"
      "nclistremove (mru (cache s)) i = remove1 e (mru (cache s))"
    using mru_scan_remove1 by blast
  let ?xc' = "filter (\<lambda>kv. fst kv \<noteq> h) ?xc"
  let ?s0 = "s\<lparr>cache := (cache s)\<lparr>xcache := ?xc', mru := remove1 e (mru (cache s))\<rparr>\<rparr>"
  obtain st m where wr: "nczmap_write env (zmap s)
        (NCZ_chunkpath (key entry) (dimension_separator (cache s))) 0 (chunksize (cache s)) d = (st, m)"
    by (cases "nczmap_write env (zmap s)
        (NCZ_chunkpath (key entry) (dimension_separator (cache s))) 0 (chunksize (cache s)) d")
  define s1 where "s1 = free_entry e (if modified entry then ?s0\<lparr>zmap := m\<rparr> else ?s0)"
  define stat where "stat = (if modified entry then st else NC_NOERR)"
  have body: "makeroom_body env s = Some (stat, True, s1)"
    using xne last ent look scan wr
    by (simp add: makeroom_body_def ncxcachelast_def ncxcacheremove_def put_chunk_def
        s1_def stat_def)
  have c1: "xcache (cache s1) = ?xc'" and c2: "mru (cache s1) = remove1 e (mru (cache s))"
    and c3: "heap s1 = (heap s)(e := None)" and c4: "brk s1 = brk s" and c5: "allocs s1 = allocs s"
    and c6: "cache_config (cache s1) = cache_config (cache s)"
    by (simp_all add: s1_def free_entry_def cache_config_def)
  have sx: "snd ` set ?xc' = snd ` set ?xc - {e}"
    using d1 d2 mem by (rule snd_filter_key)
  have w1: "distinct (map fst ?xc')" using d1 by (simp add: distinct_map_filter)
  have w2: "distinct (map snd ?xc')" using d2 by (simp add: distinct_map_filter)
  have w3: "distinct (remove1 e (mru (cache s)))" using d3 by simp
  have w4: "set (remove1 e (mru (cache s))) = snd ` set ?xc'"
    using d3 eq sx by simp
  have w5: "\<forall>kv \<in> set ?xc'. \<exists>e'. ((heap s)(e := None)) (snd kv) = Some e' \<and> hashkey e' = fst kv \<and> data e' \<noteq> None"
  proof
    fix kv assume kv: "kv \<in> set ?xc'"
    then have "snd kv \<in> snd ` set ?xc'" by (rule imageI)
    with sx have "snd kv \<noteq> e" by auto
    moreover from kv have "kv \<in> set ?xc" by simp
    ultimately show "\<exists>e'. ((heap s)(e := None)) (snd kv) = Some e' \<and> hashkey e' = fst kv \<and> data e' \<noteq> None"
      using hp by simp
  qed
  have w6: "\<forall>p \<in> dom ((heap s)(e := None)). p < brk s" using fr by auto
  have wf1: "wf_cache s1"
    unfolding wf_cache_def c1 c2 c3 c4 using w1 w2 w3 w4 w5 w6 by blast
  have len: "Suc (length (mru (cache s1))) = length (mru (cache s))"
    using \<open>e \<in> set (mru (cache s))\<close> by (simp add: c2 length_remove1) (cases "mru (cache s)"; simp)
  have sub: "set (mru (cache s1)) \<subseteq> set (mru (cache s))"
    unfolding c2 by (rule set_remove1_subset)
  have dm: "dom (heap s1) = dom (heap s) - (set (mru (cache s)) - set (mru (cache s1)))"
    using d3 \<open>e \<in> set (mru (cache s))\<close> by (auto simp: c2 c3)
  have subx: "set (xcache (cache s1)) \<subseteq> set (xcache (cache s))"
    unfolding c1 by auto
  from body wf1 len c6 c4 c5 sub subx dm show ?thesis by blast
qed

lemma makeroom_loop_wf:
  assumes "wf_cache s"
  shows "\<exists>st s1. makeroom_loop env stat s = Some (st, s1) \<and> wf_cache s1
           \<and> length (mru (cache s1)) \<le> maxentries (cache s1)
           \<and> cache_config (cache s1) = cache_config (cache s)
           \<and> brk s1 = brk s \<and> allocs s1 = allocs s
           \<and> set (mru (cache s1)) \<subseteq> set (mru (cache s))
           \<and> set (xcache (cache s1)) \<subseteq> set (xcache (cache s))
           \<and> dom (heap s1) = dom (heap s) - (set (mru (cache s)) - set (mru (cache s1)))"
  using assms
proof (induction "length (mru (cache s))" arbitrary: s stat rule: less_induct)
  case less
  show ?case
  proof (cases "length (mru (cache s)) > maxentries (cache s)")
    case False
    then show ?thesis using less.prems by (subst makeroom_loop.simps) auto
  next
    case True
    then have "mru (cache s) \<noteq> []" by auto
    from makeroom_body_wf [OF less.prems this, of env] obtain st0 s0 where
        b: "makeroom_body env s = Some (st0, True, s0)" and w: "wf_cache s0"
      and l: "Suc (length (mru (cache s0))) = length (mru (cache s))"
      and c: "cache_config (cache s0) = cache_config (cache s)"
      and k: "brk s0 = brk s" "allocs s0 = allocs s"
      and sub: "set (mru (cache s0)) \<subseteq> set (mru (cache s))"
      and subx: "set (xcache (cache s0)) \<subseteq> set (xcache (cache s))"
      and dm: "dom (heap s0) = dom (heap s) - (set (mru (cache s)) - set (mru (cache s0)))"
      by blast
    from l have "length (mru (cache s0)) < length (mru (cache s))" by simp
    from less.hyps [OF this w, of st0] obtain st s1 where
        r: "makeroom_loop env st0 s0 = Some (st, s1)" and w1: "wf_cache s1"
      and l1: "length (mru (cache s1)) \<le> maxentries (cache s1)"
      and c1: "cache_config (cache s1) = cache_config (cache s0)"
      and k1: "brk s1 = brk s0" "allocs s1 = allocs s0"
      and sub1: "set (mru (cache s1)) \<subseteq> set (mru (cache s0))"
      and subx1: "set (xcache (cache s1)) \<subseteq> set (xcache (cache s0))"
      and dm1: "dom (heap s1) = dom (heap s0) - (set (mru (cache s0)) - set (mru (cache s1)))"
      by blast
    have "makeroom_loop env stat s = Some (st, s1)"
      using True b r by (subst makeroom_loop.simps) simp
    moreover have "dom (heap s1) = dom (heap s) - (set (mru (cache s)) - set (mru (cache s1)))"
      using dm dm1 sub sub1 by auto
    moreover have "set (xcache (cache s1)) \<subseteq> set (xcache (cache s))"
      using subx subx1 by (rule subset_trans [rotated])
    moreover have "set (mru (cache s1)) \<subseteq> set (mru (cache s))"
      using sub sub1 by (rule subset_trans [rotated])
    ultimately show ?thesis using w1 l1 c c1 k k1 by simp
  qed
qed

lemma makeroom_loop_idle:
  "length (mru (cache s)) \<le> maxentries (cache s) \<Longrightarrow> makeroom_loop env stat s = Some (stat, s)"
  by (subst makeroom_loop.simps) simp

lemma makeroom_body_stop:
  "makeroom_body env s = Some (st, False, s1) \<Longrightarrow> st \<noteq> NC_NOERR"
  by (auto simp: makeroom_body_def split: option.splits prod.splits if_splits)

lemma makeroom_loop_bound:
  "makeroom_loop env stat s = Some (NC_NOERR, s1) \<Longrightarrow>
   length (mru (cache s1)) \<le> maxentries (cache s1)"
proof (induction "length (mru (cache s))" arbitrary: s stat rule: less_induct)
  case less
  show ?case
  proof (cases "length (mru (cache s)) > maxentries (cache s)")
    case False
    with less.prems show ?thesis by (subst (asm) makeroom_loop.simps) auto
  next
    case over: True
    with less.prems obtain st0 go s0 where b: "makeroom_body env s = Some (st0, go, s0)"
      by (subst (asm) makeroom_loop.simps) (auto split: option.splits)
    show ?thesis
    proof (cases go)
      case True
      with over b less.prems have r: "makeroom_loop env st0 s0 = Some (NC_NOERR, s1)"
        by (subst (asm) makeroom_loop.simps) simp
      from b True have "length (mru (cache s0)) < length (mru (cache s))"
        by (auto dest: makeroom_body_shrinks)
      then show ?thesis using r by (rule less.hyps)
    next
      case False
      with over b less.prems have "st0 = NC_NOERR"
        by (subst (asm) makeroom_loop.simps) simp
      with makeroom_body_stop [of env s st0 s0] b False show ?thesis by simp
    qed
  qed
qed

lemma makeroom_body_config:
  "makeroom_body env s = Some (st, go, s1) \<Longrightarrow> cache_config (cache s1) = cache_config (cache s)"
  by (auto simp: makeroom_body_def free_entry_def cache_config_def
      split: option.splits prod.splits if_splits dest!: put_chunk_cache)

lemma makeroom_loop_config:
  "makeroom_loop env stat s = Some (st, s1) \<Longrightarrow>
   cache_config (cache s1) = cache_config (cache s)"
proof (induction "length (mru (cache s))" arbitrary: s stat rule: less_induct)
  case less
  show ?case
  proof (cases "length (mru (cache s)) > maxentries (cache s)")
    case False
    with less.prems show ?thesis by (subst (asm) makeroom_loop.simps) auto
  next
    case over: True
    with less.prems obtain st0 go s0 where b: "makeroom_body env s = Some (st0, go, s0)"
      by (subst (asm) makeroom_loop.simps) (auto split: option.splits)
    note c = makeroom_body_config [OF b]
    show ?thesis
    proof (cases go)
      case True
      with over b less.prems have r: "makeroom_loop env st0 s0 = Some (st, s1)"
        by (subst (asm) makeroom_loop.simps) simp
      from b True have "length (mru (cache s0)) < length (mru (cache s))"
        by (auto dest: makeroom_body_shrinks)
      from less.hyps [OF this r] c show ?thesis by simp
    next
      case False
      with over b less.prems have "s1 = s0"
        by (subst (asm) makeroom_loop.simps) simp
      with c show ?thesis by simp
    qed
  qed
qed

lemma calloc_frame:
  "calloc s = (b, s1) \<Longrightarrow>
   cache s1 = cache s \<and> heap s1 = heap s \<and> brk s1 = brk s \<and> zmap s1 = zmap s"
  by (auto simp: calloc_def split: list.splits)

lemma NCZ_varkey_frame:
  "NCZ_varkey s = (st, vk, s1) \<Longrightarrow>
   cache s1 = cache s \<and> heap s1 = heap s \<and> brk s1 = brk s \<and> zmap s1 = zmap s
   \<and> (st = NC_NOERR \<or> st = NC_ENOMEM)
   \<and> (st = NC_NOERR \<longrightarrow> vk = Some (varpath (var (cache s))))"
  by (auto simp: NCZ_varkey_def split: prod.splits bool.splits dest: calloc_frame)

lemma NCZ_buildchunkpath_frame:
  assumes "islegaldimsep (dimension_separator (cache s))" and "ndims (cache s) \<le> length idx"
  shows "\<exists>st k1 s1. NCZ_buildchunkpath env s idx k = Some (st, k1, s1)
     \<and> cache s1 = cache s \<and> heap s1 = heap s \<and> brk s1 = brk s \<and> zmap s1 = zmap s
     \<and> (st = NC_NOERR \<or> st = NC_ENOMEM)
     \<and> (st = NC_NOERR \<longrightarrow> varkey k1 \<noteq> None \<and> chunkkey k1 \<noteq> None)"
proof -
  obtain st vk s1 where v: "NCZ_varkey s = (st, vk, s1)" by (cases "NCZ_varkey s")
  from NCZ_varkey_frame [OF v] v assms show ?thesis
    by (auto simp: NCZ_buildchunkpath_def NCZ_buildchunkkey_def)
qed

lemma create_entry_cases:
  assumes "islegaldimsep (dimension_separator (cache s))" and "ndims (cache s) \<le> length idx"
  shows "\<exists>st ent s2. create_entry env s idx hkey = Some (st, ent, s2)
     \<and> cache s2 = cache s \<and> zmap s2 = zmap s
     \<and> (st = NC_NOERR \<or> st = NC_ENOMEM)
     \<and> (case ent of
          None \<Rightarrow> st = NC_ENOMEM \<and> heap s2 = heap s \<and> brk s2 = brk s
        | Some p \<Rightarrow> p = brk s \<and> brk s2 = Suc (brk s)
            \<and> (\<exists>e. heap s2 = (heap s)(p \<mapsto> e)
                 \<and> (st = NC_NOERR \<longrightarrow> hashkey e = hkey \<and> \<not> modified e
                       \<and> data e = Some (replicate (chunksize (cache s)) 0))))"
proof -
  obtain b1 s1 where a1: "calloc s = (b1, s1)" by (cases "calloc s")
  note f1 = calloc_frame [OF a1]
  show ?thesis
  proof (cases b1)
    case False
    with a1 f1 show ?thesis by (simp add: create_entry_def)
  next
    case b1: True
    let ?p = "brk s1"
    let ?e1 = "zero_entry\<lparr>indices := take (ndims (cache s1)) idx\<rparr>"
    obtain b2 s2 where a2: "calloc (s1\<lparr>heap := (heap s1)(?p \<mapsto> ?e1), brk := Suc ?p\<rparr>) = (b2, s2)"
      by (cases "calloc (s1\<lparr>heap := (heap s1)(?p \<mapsto> ?e1), brk := Suc ?p\<rparr>)")
    note f2 = calloc_frame [OF a2]
    show ?thesis
    proof (cases b2)
      case False
      with a1 b1 a2 f1 f2 show ?thesis by (auto simp: create_entry_def Let_def)
    next
      case b2: True
      let ?e2 = "?e1\<lparr>data := Some (replicate (chunksize (cache s2)) 0)\<rparr>"
      let ?s2 = "s2\<lparr>heap := (heap s2)(?p \<mapsto> ?e2)\<rparr>"
      have "islegaldimsep (dimension_separator (cache ?s2))" "ndims (cache ?s2) \<le> length idx"
        using assms f1 f2 by simp_all
      from NCZ_buildchunkpath_frame [OF this, of env "key ?e2"] obtain st k1 s3 where
          p: "NCZ_buildchunkpath env ?s2 idx (key ?e2) = Some (st, k1, s3)"
        and f3: "cache s3 = cache ?s2" "heap s3 = heap ?s2" "brk s3 = brk ?s2" "zmap s3 = zmap ?s2"
        and st: "st = NC_NOERR \<or> st = NC_ENOMEM"
        by blast
      from a1 b1 a2 b2 p f1 f2 f3 st show ?thesis
        by (auto simp: create_entry_def Let_def zero_entry_def)
    qed
  qed
qed

lemma create_entry_ok:
  assumes "create_entry env s idx hkey = Some (NC_NOERR, ent, s2)"
  shows "ent = Some (brk s) \<and> brk s2 = Suc (brk s) \<and> cache s2 = cache s \<and> zmap s2 = zmap s
     \<and> (\<exists>e. heap s2 = (heap s)(brk s \<mapsto> e) \<and> hashkey e = hkey \<and> \<not> modified e
            \<and> data e = Some (replicate (chunksize (cache s)) 0))"
proof -
  obtain b1 s1 where a1: "calloc s = (b1, s1)" by (cases "calloc s")
  note f1 = calloc_frame [OF a1]
  from assms a1 have b1: "b1" by (cases b1) (auto simp: create_entry_def)
  let ?p = "brk s1"
  let ?e1 = "zero_entry\<lparr>indices := take (ndims (cache s1)) idx\<rparr>"
  obtain b2 s2' where a2: "calloc (s1\<lparr>heap := (heap s1)(?p \<mapsto> ?e1), brk := Suc ?p\<rparr>) = (b2, s2')"
    by (cases "calloc (s1\<lparr>heap := (heap s1)(?p \<mapsto> ?e1), brk := Suc ?p\<rparr>)")
  note f2 = calloc_frame [OF a2]
  from assms a1 b1 a2 have b2: "b2" by (cases b2) (auto simp: create_entry_def Let_def)
  let ?e2 = "?e1\<lparr>data := Some (replicate (chunksize (cache s2')) 0)\<rparr>"
  let ?s2 = "s2'\<lparr>heap := (heap s2')(?p \<mapsto> ?e2)\<rparr>"
  from assms a1 b1 a2 b2 obtain k1 s3 where
      p: "NCZ_buildchunkpath env ?s2 idx (key ?e2) = Some (NC_NOERR, k1, s3)"
    and r: "ent = Some ?p" "s2 = s3\<lparr>heap := (heap s3)(?p \<mapsto> ?e2\<lparr>key := k1, hashkey := hkey\<rparr>)\<rparr>"
    by (auto simp: create_entry_def Let_def split: option.splits if_splits)
  from p have f3: "cache s3 = cache ?s2" "heap s3 = heap ?s2" "brk s3 = brk ?s2" "zmap s3 = zmap ?s2"
    by (auto simp: NCZ_buildchunkpath_def split: option.splits if_splits prod.splits
        dest!: NCZ_varkey_frame)
  from r f1 f2 f3 show ?thesis by (auto simp: zero_entry_def)
qed

lemma get_chunk_result:
  assumes "heap s p = Some e" and "data e = Some buf"
  shows "get_chunk env s p =
     (case nczmap_read env (zmap s) (NCZ_chunkpath (key e) (dimension_separator (cache s)))
             0 (chunksize (cache s)) of
        (st, bs, m) \<Rightarrow>
          Some (st, s\<lparr>zmap := m,
             heap := (heap s)(p \<mapsto> e\<lparr>data := Some (store_into buf (chunksize (cache s)) bs)\<rparr>)\<rparr>))"
  using assms by (simp add: get_chunk_def)

lemma get_chunk_elim:
  assumes "get_chunk env s p = Some (st, s3)"
  shows "\<exists>e buf bs. heap s p = Some e \<and> data e = Some buf
     \<and> cache s3 = cache s \<and> brk s3 = brk s \<and> allocs s3 = allocs s
     \<and> heap s3 = (heap s)(p \<mapsto> e\<lparr>data := Some (store_into buf (chunksize (cache s)) bs)\<rparr>)"
  using assms by (auto simp: get_chunk_def split: option.splits prod.splits)

lemma wf_cache_cong:
  assumes "wf_cache s" and "cache s1 = cache s" and "heap s1 = heap s" and "brk s \<le> brk s1"
  shows "wf_cache s1"
proof -
  from assms(1) have "\<forall>p \<in> dom (heap s). p < brk s" by (simp add: wf_cache_def)
  with assms(4) have "\<forall>p \<in> dom (heap s). p < brk s1"
    by (meson less_le_trans)
  with assms(1) show ?thesis unfolding wf_cache_def assms(2,3) by simp
qed

lemma wf_cache_fresh: "wf_cache s \<Longrightarrow> brk s \<notin> dom (heap s)"
  unfolding wf_cache_def by blast

lemma wf_cache_mru_heap: "wf_cache s \<Longrightarrow> set (mru (cache s)) \<subseteq> dom (heap s)"
  unfolding wf_cache_def by force

lemma wf_cache_fresh_mru: "wf_cache s \<Longrightarrow> brk s \<notin> set (mru (cache s))"
  using wf_cache_fresh [of s] wf_cache_mru_heap [of s] by blast

lemma wf_cache_lengths:
  assumes "wf_cache s"
  shows "length (xcache (cache s)) = length (mru (cache s))"
proof -
  from assms have d: "distinct (map snd (xcache (cache s)))" "distinct (mru (cache s))"
    and e: "set (mru (cache s)) = set (map snd (xcache (cache s)))"
    by (simp_all add: wf_cache_def)
  have "length (map snd (xcache (cache s))) = card (set (map snd (xcache (cache s))))"
    using d(1) by (simp only: distinct_card)
  also have "\<dots> = card (set (mru (cache s)))" by (simp only: e)
  also have "\<dots> = length (mru (cache s))" using d(2) by (simp only: distinct_card)
  finally show ?thesis by simp
qed

lemma read_miss_stored:
  assumes mk: "makeroom env s = Some (NC_NOERR, s1)"
    and ce: "create_entry env s1 idx hkey = Some (NC_NOERR, Some p, s2)"
    and gc: "get_chunk env s2 p = Some (st, s3)"
    and st: "st = NC_NOERR \<or> st = NC_EEMPTY"
  shows "\<exists>e3 s4. heap s3 p = Some e3 \<and> hashkey e3 = hkey \<and> data e3 \<noteq> None \<and> \<not> modified e3
      \<and> p = brk s1 \<and> cache s3 = cache s1 \<and> dom (heap s3) = insert p (dom (heap s1))
      \<and> (\<forall>q. q \<noteq> p \<longrightarrow> heap s3 q = heap s1 q)
      \<and> read_miss env s idx hkey = Some (st, Some p, s4)
      \<and> heap s4 = (heap s3)(p \<mapsto>
            (if st = NC_EEMPTY
             then e3\<lparr>modified := \<not> no_write (var (cache s1)),
                    data := Some (replicate (chunksize (cache s1)) 0)\<rparr>
             else e3))
      \<and> cache s4 = (cache s1)\<lparr>mru := mru (cache s1) @ [p],
            xcache := (hkey, p) # filter (\<lambda>kv. fst kv \<noteq> hkey) (xcache (cache s1))\<rparr>
      \<and> brk s4 = Suc (brk s1) \<and> allocs s4 = allocs s3 \<and> zmap s4 = zmap s3"
proof -
  from create_entry_ok [OF ce] obtain e where
      p: "p = brk s1" and k2: "brk s2 = Suc (brk s1)" and c2: "cache s2 = cache s1"
    and h2: "heap s2 = (heap s1)(p \<mapsto> e)" and e: "hashkey e = hkey" "\<not> modified e"
    by auto
  from get_chunk_elim [OF gc] h2 obtain buf bs where
      c3: "cache s3 = cache s2" and k3: "brk s3 = brk s2"
    and h3: "heap s3 = (heap s2)(p \<mapsto> e\<lparr>data := Some (store_into buf (chunksize (cache s2)) bs)\<rparr>)"
    by auto
  let ?e3 = "e\<lparr>data := Some (store_into buf (chunksize (cache s2)) bs)\<rparr>"
  have h3p: "heap s3 p = Some ?e3" by (simp add: h3)
  have d3: "dom (heap s3) = insert p (dom (heap s1))" by (simp add: h3 h2)
  have o3: "\<forall>q. q \<noteq> p \<longrightarrow> heap s3 q = heap s1 q" by (simp add: h3 h2)
  show ?thesis
    using mk ce gc st h3p e p c2 c3 k2 k3 d3 o3
    by (auto simp: read_miss_def read_done_def ncxcacheinsert_def Let_def)
qed

lemma read_miss_eq:
  assumes "ndims (cache s) \<le> length idx"
    and "ncxcachelookup (xcache (cache s)) (ncxcachekey env (take (ndims (cache s)) idx))
           = (NC_ENOTFOUND, None)"
  shows "NCZ_read_cache_chunk env s idx
           = read_miss env s idx (ncxcachekey env (take (ndims (cache s)) idx))"
  using assms by (simp add: NCZ_read_cache_chunk_def Let_def)

lemma read_hit_eq:
  assumes "ndims (cache s) \<le> length idx"
    and "map_of (xcache (cache s)) (ncxcachekey env (take (ndims (cache s)) idx)) = Some p"
    and "heap s p = Some e" and "data e \<noteq> None"
  shows "NCZ_read_cache_chunk env s idx
           = Some (NC_NOERR, Some p,
               s\<lparr>cache := (cache s)\<lparr>xcache :=
                 (ncxcachekey env (take (ndims (cache s)) idx), p)
                   # filter (\<lambda>kv. fst kv \<noteq> ncxcachekey env (take (ndims (cache s)) idx))
                       (xcache (cache s))\<rparr>\<rparr>)"
  using assms
  by (auto simp: NCZ_read_cache_chunk_def Let_def ncxcachelookup_def ncxcachetouch_def
      read_done_def)

lemma wf_cache_touch:
  assumes wf: "wf_cache s" and look: "map_of (xcache (cache s)) hkey = Some p"
  shows "wf_cache (s\<lparr>cache := (cache s)\<lparr>xcache :=
           (hkey, p) # filter (\<lambda>kv. fst kv \<noteq> hkey) (xcache (cache s))\<rparr>\<rparr>)"
proof -
  let ?xc = "xcache (cache s)"
  let ?xc' = "filter (\<lambda>kv. fst kv \<noteq> hkey) ?xc"
  from wf have d1: "distinct (map fst ?xc)" and d2: "distinct (map snd ?xc)"
    and d3: "distinct (mru (cache s))" and eq: "set (mru (cache s)) = snd ` set ?xc"
    and hp: "\<forall>kv \<in> set ?xc. \<exists>e. heap s (snd kv) = Some e \<and> hashkey e = fst kv \<and> data e \<noteq> None"
    and fr: "\<forall>p \<in> dom (heap s). p < brk s"
    by (simp_all add: wf_cache_def)
  from look have mem: "(hkey, p) \<in> set ?xc" by (rule map_of_SomeD)
  have sx: "snd ` set ?xc' = snd ` set ?xc - {p}" using d1 d2 mem by (rule snd_filter_key)
  have w1: "distinct (map fst ((hkey, p) # ?xc'))"
    using d1 by (auto simp: distinct_map_filter)
  have w2: "distinct (map snd ((hkey, p) # ?xc'))"
    using d2 sx by (auto simp: distinct_map_filter)
  have w4: "set (mru (cache s)) = snd ` set ((hkey, p) # ?xc')"
    using eq sx mem by force
  have w5: "\<forall>kv \<in> set ((hkey, p) # ?xc'). \<exists>e. heap s (snd kv) = Some e \<and> hashkey e = fst kv \<and> data e \<noteq> None"
    using hp mem by auto
  show ?thesis
    unfolding wf_cache_def using w1 w2 d3 w4 w5 fr by simp
qed

lemma wf_cache_insert:
  assumes wf: "wf_cache s1" and p: "p = brk s1"
    and nokey: "hkey \<notin> fst ` set (xcache (cache s1))"
    and h4: "heap s4 p = Some e" "hashkey e = hkey" "data e \<noteq> None"
    and o4: "\<forall>q. q \<noteq> p \<longrightarrow> heap s4 q = heap s1 q"
    and c4: "cache s4 = (cache s1)\<lparr>mru := mru (cache s1) @ [p],
            xcache := (hkey, p) # filter (\<lambda>kv. fst kv \<noteq> hkey) (xcache (cache s1))\<rparr>"
    and k4: "brk s4 = Suc (brk s1)"
  shows "wf_cache s4"
proof -
  let ?xc = "xcache (cache s1)"
  from wf have d1: "distinct (map fst ?xc)" and d2: "distinct (map snd ?xc)"
    and d3: "distinct (mru (cache s1))" and eq: "set (mru (cache s1)) = snd ` set ?xc"
    and hp: "\<forall>kv \<in> set ?xc. \<exists>e. heap s1 (snd kv) = Some e \<and> hashkey e = fst kv \<and> data e \<noteq> None"
    and fr: "\<forall>q \<in> dom (heap s1). q < brk s1"
    by (simp_all add: wf_cache_def)
  from nokey have f: "filter (\<lambda>kv. fst kv \<noteq> hkey) ?xc = ?xc"
    by (intro filter_True) force
  have pm: "p \<notin> set (mru (cache s1))" using wf_cache_fresh_mru [OF wf] p by simp
  with eq have px: "p \<notin> snd ` set ?xc" by simp
  have x4: "xcache (cache s4) = (hkey, p) # ?xc" and m4: "mru (cache s4) = mru (cache s1) @ [p]"
    by (simp_all add: c4 f)
  have w1: "distinct (map fst (xcache (cache s4)))" using d1 nokey by (simp add: x4)
  have w2: "distinct (map snd (xcache (cache s4)))" using d2 px by (simp add: x4)
  have w3: "distinct (mru (cache s4))" using d3 pm by (simp add: m4)
  have w4: "set (mru (cache s4)) = snd ` set (xcache (cache s4))" using eq by (simp add: x4 m4)
  have w5: "\<forall>kv \<in> set (xcache (cache s4)).
      \<exists>e. heap s4 (snd kv) = Some e \<and> hashkey e = fst kv \<and> data e \<noteq> None"
  proof
    fix kv assume "kv \<in> set (xcache (cache s4))"
    then consider "kv = (hkey, p)" | "kv \<in> set ?xc" by (auto simp: x4)
    then show "\<exists>e. heap s4 (snd kv) = Some e \<and> hashkey e = fst kv \<and> data e \<noteq> None"
    proof cases
      case 1
      with h4 show ?thesis by simp
    next
      case 2
      then have "snd kv \<in> snd ` set ?xc" by (rule imageI)
      with px have "snd kv \<noteq> p" by auto
      with o4 have "heap s4 (snd kv) = heap s1 (snd kv)" by simp
      with hp 2 show ?thesis by simp
    qed
  qed
  have w6: "\<forall>q \<in> dom (heap s4). q < brk s4"
  proof
    fix q assume q: "q \<in> dom (heap s4)"
    show "q < brk s4"
    proof (cases "q = p")
      case True
      with p k4 show ?thesis by simp
    next
      case False
      with o4 q have "q \<in> dom (heap s1)" by (simp add: domIff)
      with fr have "q < brk s1" by blast
      with k4 show ?thesis by simp
    qed
  qed
  show ?thesis unfolding wf_cache_def using w1 w2 w3 w4 w5 w6 by simp
qed

lemma wf_cache_free_fresh:
  assumes wf: "wf_cache s1" and c: "cache s2 = cache s1"
    and h: "\<forall>q. q \<noteq> brk s1 \<longrightarrow> heap s2 q = heap s1 q" and k: "brk s1 \<le> brk s2"
  shows "wf_cache (free_entry (brk s1) s2) \<and> heap (free_entry (brk s1) s2) = heap s1"
proof -
  have "heap s1 (brk s1) = None" using wf_cache_fresh [OF wf] by (simp add: domIff)
  with h have "(heap s2)(brk s1 := None) = heap s1" by (intro ext) simp
  then have hh: "heap (free_entry (brk s1) s2) = heap s1" by (simp add: free_entry_def)
  moreover have "cache (free_entry (brk s1) s2) = cache s1" "brk s1 \<le> brk (free_entry (brk s1) s2)"
    using c k by (simp_all add: free_entry_def)
  ultimately show ?thesis using wf_cache_cong [OF wf] by blast
qed

lemma cache_config_fields:
  "cache_config c1 = cache_config c \<Longrightarrow>
   var c1 = var c \<and> ndims c1 = ndims c \<and> chunksize c1 = chunksize c
   \<and> dimension_separator c1 = dimension_separator c \<and> maxentries c1 = maxentries c
   \<and> fillchunk c1 = fillchunk c"
  by (simp add: cache_config_def)

lemma read_miss_wf:
  assumes wf: "wf_cache s" and legal: "islegaldimsep (dimension_separator (cache s))"
    and len: "ndims (cache s) \<le> length idx"
    and nokey: "map_of (xcache (cache s)) hkey = None"
  shows "\<exists>st dp s'. read_miss env s idx hkey = Some (st, dp, s') \<and> wf_cache s'
     \<and> cache_config (cache s') = cache_config (cache s)
     \<and> length (mru (cache s')) \<le> Suc (maxentries (cache s))"
proof -
  from makeroom_loop_wf [OF wf, of env NC_NOERR] obtain st1 s1 where
      mk: "makeroom env s = Some (st1, s1)" and wf1: "wf_cache s1"
    and l1: "length (mru (cache s1)) \<le> maxentries (cache s1)"
    and c1: "cache_config (cache s1) = cache_config (cache s)"
    and subx: "set (xcache (cache s1)) \<subseteq> set (xcache (cache s))"
    unfolding makeroom_def by blast
  note f1 = cache_config_fields [OF c1]
  from l1 f1 have l1': "length (mru (cache s1)) \<le> Suc (maxentries (cache s))" by simp
  show ?thesis
  proof (cases "st1 = NC_NOERR")
    case False
    with mk have "read_miss env s idx hkey = Some (st1, None, s1)"
      by (simp add: read_miss_def read_done_def)
    with wf1 c1 l1' show ?thesis by simp
  next
    case ok1: True
    have legal1: "islegaldimsep (dimension_separator (cache s1))"
      and len1: "ndims (cache s1) \<le> length idx"
      using legal len f1 by simp_all
    from create_entry_cases [OF legal1 len1, of env hkey] obtain st2 ent s2 where
        ce: "create_entry env s1 idx hkey = Some (st2, ent, s2)"
      and c2: "cache s2 = cache s1"
      and ent: "case ent of
          None \<Rightarrow> st2 = NC_ENOMEM \<and> heap s2 = heap s1 \<and> brk s2 = brk s1
        | Some p \<Rightarrow> p = brk s1 \<and> brk s2 = Suc (brk s1)
            \<and> (\<exists>e. heap s2 = (heap s1)(p \<mapsto> e)
                 \<and> (st2 = NC_NOERR \<longrightarrow> hashkey e = hkey \<and> \<not> modified e
                       \<and> data e = Some (replicate (chunksize (cache s1)) 0)))"
      by blast
    show ?thesis
    proof (cases ent)
      case None
      with ent have e: "st2 = NC_ENOMEM" "heap s2 = heap s1" "brk s2 = brk s1" by simp_all
      from mk ok1 ce None e have "read_miss env s idx hkey = Some (NC_ENOMEM, None, s2)"
        by (simp add: read_miss_def read_done_def)
      moreover have "wf_cache s2" by (rule wf_cache_cong [OF wf1 c2]) (simp_all add: e)
      ultimately show ?thesis using c1 c2 l1' by simp
    next
      case (Some p)
      with ent obtain e where p: "p = brk s1" and k2: "brk s2 = Suc (brk s1)"
        and h2: "heap s2 = (heap s1)(p \<mapsto> e)"
        and e: "st2 = NC_NOERR \<longrightarrow> hashkey e = hkey \<and> \<not> modified e
                  \<and> data e = Some (replicate (chunksize (cache s1)) 0)"
        by auto
      show ?thesis
      proof (cases "st2 = NC_NOERR")
        case False
        with mk ok1 ce Some have r: "read_miss env s idx hkey = Some (st2, None, free_entry p s2)"
          by (simp add: read_miss_def read_done_def)
        have "\<forall>q. q \<noteq> brk s1 \<longrightarrow> heap s2 q = heap s1 q" using h2 p by simp
        from wf_cache_free_fresh [OF wf1 c2 this] k2 p have "wf_cache (free_entry p s2)" by simp
        moreover have "cache (free_entry p s2) = cache s1" using c2 by (simp add: free_entry_def)
        ultimately show ?thesis using r c1 l1' by simp
      next
        case ok2: True
        with e have e': "data e = Some (replicate (chunksize (cache s1)) 0)" by simp
        have h2p: "heap s2 p = Some e" by (simp add: h2)
        obtain st3 bs m where rd: "nczmap_read env (zmap s2)
            (NCZ_chunkpath (key e) (dimension_separator (cache s2))) 0 (chunksize (cache s2))
              = (st3, bs, m)"
          by (cases "nczmap_read env (zmap s2)
            (NCZ_chunkpath (key e) (dimension_separator (cache s2))) 0 (chunksize (cache s2))")
        define s3 where "s3 = s2\<lparr>zmap := m, heap := (heap s2)(p \<mapsto>
            e\<lparr>data := Some (store_into (replicate (chunksize (cache s1)) 0) (chunksize (cache s2)) bs)\<rparr>)\<rparr>"
        have gc: "get_chunk env s2 p = Some (st3, s3)"
          using get_chunk_result [OF h2p e', of env] rd by (simp add: s3_def)
        have c3: "cache s3 = cache s1" and k3: "brk s3 = Suc (brk s1)"
          and o3: "\<forall>q. q \<noteq> brk s1 \<longrightarrow> heap s3 q = heap s1 q"
          using c2 k2 h2 p by (simp_all add: s3_def)
        show ?thesis
        proof (cases "st3 = NC_NOERR \<or> st3 = NC_EEMPTY")
          case False
          with mk ok1 ce Some ok2 gc
          have r: "read_miss env s idx hkey = Some (st3, None, free_entry p s3)"
            by (simp add: read_miss_def read_done_def)
          from wf_cache_free_fresh [OF wf1 c3 o3] k3 p have "wf_cache (free_entry p s3)" by simp
          moreover have "cache (free_entry p s3) = cache s1" using c3 by (simp add: free_entry_def)
          ultimately show ?thesis using r c1 l1' by simp
        next
          case True
          from read_miss_stored [OF mk [unfolded ok1] ce [unfolded Some ok2] gc True]
          obtain e3 s4 where h3: "heap s3 p = Some e3" "hashkey e3 = hkey" "data e3 \<noteq> None"
            and o3': "\<forall>q. q \<noteq> p \<longrightarrow> heap s3 q = heap s1 q"
            and r: "read_miss env s idx hkey = Some (st3, Some p, s4)"
            and h4: "heap s4 = (heap s3)(p \<mapsto>
                (if st3 = NC_EEMPTY
                 then e3\<lparr>modified := \<not> no_write (var (cache s1)),
                        data := Some (replicate (chunksize (cache s1)) 0)\<rparr>
                 else e3))"
            and c4: "cache s4 = (cache s1)\<lparr>mru := mru (cache s1) @ [p],
                xcache := (hkey, p) # filter (\<lambda>kv. fst kv \<noteq> hkey) (xcache (cache s1))\<rparr>"
            and k4: "brk s4 = Suc (brk s1)"
            by blast
          from nokey have "hkey \<notin> fst ` set (xcache (cache s))" by (simp add: map_of_eq_None_iff)
          with subx have nk1: "hkey \<notin> fst ` set (xcache (cache s1))" by blast
          have "wf_cache s4"
          proof (rule wf_cache_insert [OF wf1 p nk1 _ _ _ _ c4 k4])
            show "heap s4 p = Some (if st3 = NC_EEMPTY
                 then e3\<lparr>modified := \<not> no_write (var (cache s1)),
                        data := Some (replicate (chunksize (cache s1)) 0)\<rparr>
                 else e3)"
              by (simp add: h4)
            show "hashkey (if st3 = NC_EEMPTY
                 then e3\<lparr>modified := \<not> no_write (var (cache s1)),
                        data := Some (replicate (chunksize (cache s1)) 0)\<rparr>
                 else e3) = hkey"
              using h3 by simp
            show "data (if st3 = NC_EEMPTY
                 then e3\<lparr>modified := \<not> no_write (var (cache s1)),
                        data := Some (replicate (chunksize (cache s1)) 0)\<rparr>
                 else e3) \<noteq> None"
              using h3 by simp
            show "\<forall>q. q \<noteq> p \<longrightarrow> heap s4 q = heap s1 q" using o3' by (simp add: h4)
          qed
          moreover have "cache_config (cache s4) = cache_config (cache s)"
            using c1 by (simp add: c4 cache_config_def)
          moreover have "length (mru (cache s4)) \<le> Suc (maxentries (cache s))"
            using l1 f1 by (simp add: c4)
          ultimately show ?thesis using r by blast
        qed
      qed
    qed
  qed
qed

lemma read_wf:
  assumes wf: "wf_cache s" and legal: "islegaldimsep (dimension_separator (cache s))"
    and len: "ndims (cache s) \<le> length idx"
  shows "\<exists>st dp s'. NCZ_read_cache_chunk env s idx = Some (st, dp, s') \<and> wf_cache s'
     \<and> cache_config (cache s') = cache_config (cache s)
     \<and> length (mru (cache s')) \<le> max (length (mru (cache s))) (Suc (maxentries (cache s)))"
proof (cases "map_of (xcache (cache s)) (ncxcachekey env (take (ndims (cache s)) idx))")
  case None
  then have "ncxcachelookup (xcache (cache s)) (ncxcachekey env (take (ndims (cache s)) idx))
      = (NC_ENOTFOUND, None)"
    by (simp add: ncxcachelookup_def)
  from read_miss_eq [OF len this] read_miss_wf [OF wf legal len None, of env]
  show ?thesis by (metis max.coboundedI2)
next
  case (Some p)
  then have mem: "(ncxcachekey env (take (ndims (cache s)) idx), p) \<in> set (xcache (cache s))"
    by (rule map_of_SomeD)
  with wf obtain e where e: "heap s p = Some e" "data e \<noteq> None"
    unfolding wf_cache_def by fastforce
  note r = read_hit_eq [OF len Some e]
  note w = wf_cache_touch [OF wf Some]
  show ?thesis
    unfolding r using w by (simp add: cache_config_def)
qed

lemma flush_loop_wf:
  assumes "wf_cache s" and "set ps \<subseteq> set (mru (cache s))"
  shows "\<exists>st s'. flush_loop env ps s = Some (st, s') \<and> wf_cache s' \<and> cache s' = cache s"
  using assms
proof (induction ps arbitrary: s)
  case Nil
  then show ?case by simp
next
  case (Cons p ps)
  from Cons.prems have "p \<in> snd ` set (xcache (cache s))" by (simp add: wf_cache_def)
  with Cons.prems(1) obtain e d where e: "heap s p = Some e" "data e = Some d"
    unfolding wf_cache_def by fastforce
  obtain st1 m where wr: "nczmap_write env (zmap s)
      (NCZ_chunkpath (key e) (dimension_separator (cache s))) 0 (chunksize (cache s)) d = (st1, m)"
    by (cases "nczmap_write env (zmap s)
      (NCZ_chunkpath (key e) (dimension_separator (cache s))) 0 (chunksize (cache s)) d")
  define s1 where "s1 = (if modified e then s\<lparr>zmap := m\<rparr> else s)"
  define st where "st = (if modified e then st1 else NC_NOERR)"
  have put: "(if modified e then put_chunk env s e else Some (NC_NOERR, s)) = Some (st, s1)"
    using e wr by (simp add: put_chunk_def s1_def st_def)
  have f1: "cache s1 = cache s" "heap s1 = heap s" "brk s1 = brk s" by (simp_all add: s1_def)
  have wf1: "wf_cache s1" by (rule wf_cache_cong [OF Cons.prems(1)]) (simp_all add: f1)
  show ?case
  proof (cases "st = NC_NOERR")
    case False
    with e put wf1 f1 show ?thesis by simp
  next
    case True
    let ?s2 = "s1\<lparr>heap := (heap s1)(p \<mapsto> e\<lparr>modified := False\<rparr>)\<rparr>"
    have wf2: "wf_cache ?s2"
      using wf1 e f1 unfolding wf_cache_def by (auto simp: domIff)
    have "set ps \<subseteq> set (mru (cache ?s2))" using Cons.prems(2) f1 by simp
    from Cons.IH [OF wf2 this] obtain st' s' where
      "flush_loop env ps ?s2 = Some (st', s')" "wf_cache s'" "cache s' = cache ?s2" by blast
    with e put True f1 show ?thesis by simp
  qed
qed

lemma flush_wf:
  assumes "wf_cache s"
  shows "\<exists>st s'. NCZ_flush_chunk_cache env s = Some (st, s') \<and> wf_cache s' \<and> cache s' = cache s"
proof (cases "NCZ_cache_size (cache s) = 0")
  case True
  with assms show ?thesis by (simp add: NCZ_flush_chunk_cache_def)
next
  case False
  with flush_loop_wf [OF assms subset_refl, of env] show ?thesis
    by (simp add: NCZ_flush_chunk_cache_def)
qed

lemma apply_op_wf:
  assumes wf: "wf_cache s" and legal: "islegaldimsep (dimension_separator (cache s))"
    and bound: "length (mru (cache s)) \<le> Suc (maxentries (cache s))"
    and opn: "read_or_flush (ndims (cache s)) opn"
  shows "\<exists>s'. apply_op env s opn = Some s' \<and> wf_cache s'
     \<and> cache_config (cache s') = cache_config (cache s)
     \<and> length (mru (cache s')) \<le> Suc (maxentries (cache s'))"
proof (cases opn)
  case (Read idx)
  with opn have "ndims (cache s) \<le> length idx" by simp
  from read_wf [OF wf legal this, of env] obtain st dp s' where
      r: "NCZ_read_cache_chunk env s idx = Some (st, dp, s')" and w: "wf_cache s'"
    and c: "cache_config (cache s') = cache_config (cache s)"
    and l: "length (mru (cache s')) \<le> max (length (mru (cache s))) (Suc (maxentries (cache s)))"
    by blast
  from l bound cache_config_fields [OF c] have "length (mru (cache s')) \<le> Suc (maxentries (cache s'))"
    by simp
  with r w c Read show ?thesis by simp
next
  case (Write idx)
  with opn show ?thesis by simp
next
  case Flush
  from flush_wf [OF wf, of env] obtain st s' where
    "NCZ_flush_chunk_cache env s = Some (st, s')" "wf_cache s'" "cache s' = cache s" by blast
  with bound Flush show ?thesis by simp
qed

lemma run_ops_wf:
  assumes "wf_cache s" and "islegaldimsep (dimension_separator (cache s))"
    and "length (mru (cache s)) \<le> Suc (maxentries (cache s))"
    and "list_all (read_or_flush (ndims (cache s))) ops"
  shows "\<exists>s'. run_ops env s ops = Some s' \<and> wf_cache s'
     \<and> cache_config (cache s') = cache_config (cache s)
     \<and> length (mru (cache s')) \<le> Suc (maxentries (cache s'))"
  using assms
proof (induction ops arbitrary: s)
  case Nil
  then show ?case by simp
next
  case (Cons opn ops)
  from Cons.prems(4) have o: "read_or_flush (ndims (cache s)) opn"
    and os: "list_all (read_or_flush (ndims (cache s))) ops" by simp_all
  from apply_op_wf [OF Cons.prems(1-3) o, of env] obtain s1 where
      a: "apply_op env s opn = Some s1" and w: "wf_cache s1"
    and c: "cache_config (cache s1) = cache_config (cache s)"
    and l: "length (mru (cache s1)) \<le> Suc (maxentries (cache s1))"
    by blast
  note f = cache_config_fields [OF c]
  from f Cons.prems(2) have legal1: "islegaldimsep (dimension_separator (cache s1))" by simp
  from f os have os1: "list_all (read_or_flush (ndims (cache s1))) ops" by simp
  from Cons.IH [OF w legal1 l os1] obtain s' where
    "run_ops env s1 ops = Some s'" "wf_cache s'" "cache_config (cache s') = cache_config (cache s1)"
    "length (mru (cache s')) \<le> Suc (maxentries (cache s'))" by blast
  with a c show ?case by simp
qed




lemma create_entry_frame:
  assumes "create_entry env s idx hkey = Some (st, ent, s2)"
  shows "cache s2 = cache s \<and> brk s \<le> brk s2
     \<and> (\<forall>q. q \<noteq> brk s \<longrightarrow> heap s2 q = heap s q)
     \<and> (ent = None \<or> ent = Some (brk s)) \<and> (ent = None \<longrightarrow> heap s2 = heap s)"
proof -
  obtain b1 s1 where a1: "calloc s = (b1, s1)" by (cases "calloc s")
  note f1 = calloc_frame [OF a1]
  show ?thesis
  proof (cases b1)
    case False
    with assms a1 f1 show ?thesis by (auto simp: create_entry_def)
  next
    case b1: True
    let ?p = "brk s1"
    let ?e1 = "zero_entry\<lparr>indices := take (ndims (cache s1)) idx\<rparr>"
    obtain b2 s2' where a2: "calloc (s1\<lparr>heap := (heap s1)(?p \<mapsto> ?e1), brk := Suc ?p\<rparr>) = (b2, s2')"
      by (cases "calloc (s1\<lparr>heap := (heap s1)(?p \<mapsto> ?e1), brk := Suc ?p\<rparr>)")
    note f2 = calloc_frame [OF a2]
    show ?thesis
    proof (cases b2)
      case False
      with assms a1 b1 a2 f1 f2 show ?thesis by (auto simp: create_entry_def Let_def)
    next
      case b2: True
      let ?e2 = "?e1\<lparr>data := Some (replicate (chunksize (cache s2')) 0)\<rparr>"
      let ?s2 = "s2'\<lparr>heap := (heap s2')(?p \<mapsto> ?e2)\<rparr>"
      from assms a1 b1 a2 b2 obtain st3 k1 s3 where
          p: "NCZ_buildchunkpath env ?s2 idx (key ?e2) = Some (st3, k1, s3)"
        by (auto simp: create_entry_def Let_def split: option.splits)
      from p have f3: "cache s3 = cache ?s2" "heap s3 = heap ?s2" "brk s3 = brk ?s2"
        by (auto simp: NCZ_buildchunkpath_def split: option.splits if_splits prod.splits
            dest!: NCZ_varkey_frame)
      from assms a1 b1 a2 b2 p f1 f2 f3 show ?thesis
        by (auto simp: create_entry_def Let_def split: if_splits)
    qed
  qed
qed

lemma makeroom_wf:
  assumes "wf_cache s" and "makeroom env s = Some (st, s1)"
  shows "wf_cache s1 \<and> length (mru (cache s1)) \<le> maxentries (cache s1)
     \<and> cache_config (cache s1) = cache_config (cache s)
     \<and> set (mru (cache s1)) \<subseteq> set (mru (cache s))
     \<and> set (xcache (cache s1)) \<subseteq> set (xcache (cache s))
     \<and> dom (heap s1) = dom (heap s) - (set (mru (cache s)) - set (mru (cache s1)))"
  using makeroom_loop_wf [OF assms(1), of env NC_NOERR] assms(2)
  unfolding makeroom_def by auto

lemma makeroom_body_unmodified:
  assumes "ncxcachelast (xcache (cache t)) = Some p" and "heap t p = Some e" and "\<not> modified e"
    and "makeroom_body env t = Some (st, go, t')"
  shows "zmap t' = zmap t"
  using assms
  by (auto simp: makeroom_body_def free_entry_def split: option.splits prod.splits if_splits)

lemma write_stores_no_pointer:
  assumes "NCZ_write_cache_chunk env s idx = Some (st, dp, s')"
  shows "dp = None"
  using assms
  by (auto simp: NCZ_write_cache_chunk_def Let_def split: if_splits option.splits prod.splits)

lemma makeroom_body_last:
  assumes wf: "wf_cache s" and ne: "mru (cache s) \<noteq> []"
  shows "\<exists>h e entry s1. last (xcache (cache s)) = (h, e) \<and> heap s e = Some entry
     \<and> makeroom_body env s =
          Some (if modified entry then fst (entry_write env (cache s) entry (zmap s)) else NC_NOERR,
                True, s1)
     \<and> heap s1 = (heap s)(e := None) \<and> mru (cache s1) = remove1 e (mru (cache s))
     \<and> e \<in> set (mru (cache s))"
proof -
  let ?xc = "xcache (cache s)"
  from wf have d1: "distinct (map fst ?xc)" and eq: "set (mru (cache s)) = snd ` set ?xc"
    and hp: "\<forall>kv \<in> set ?xc. \<exists>e. heap s (snd kv) = Some e \<and> hashkey e = fst kv \<and> data e \<noteq> None"
    by (simp_all add: wf_cache_def)
  from ne eq have xne: "?xc \<noteq> []" by auto
  obtain h e where last: "last ?xc = (h, e)" by (cases "last ?xc")
  with xne have mem: "(h, e) \<in> set ?xc" using last_in_set [of ?xc] by simp
  with hp obtain entry d where ent: "heap s e = Some entry" "hashkey entry = h" "data entry = Some d"
    by fastforce
  from mem d1 have look: "map_of ?xc h = Some e" by simp
  from mem eq have em: "e \<in> set (mru (cache s))" by force
  then obtain i where scan: "mru_scan e (mru (cache s)) = Some i"
      "nclistremove (mru (cache s)) i = remove1 e (mru (cache s))"
    using mru_scan_remove1 by blast
  obtain st m where wr: "nczmap_write env (zmap s)
        (NCZ_chunkpath (key entry) (dimension_separator (cache s))) 0 (chunksize (cache s)) d = (st, m)"
    by (cases "nczmap_write env (zmap s)
        (NCZ_chunkpath (key entry) (dimension_separator (cache s))) 0 (chunksize (cache s)) d")
  let ?s0 = "s\<lparr>cache := (cache s)\<lparr>xcache := filter (\<lambda>kv. fst kv \<noteq> h) ?xc,
                 mru := remove1 e (mru (cache s))\<rparr>\<rparr>"
  define s1 where "s1 = free_entry e (if modified entry then ?s0\<lparr>zmap := m\<rparr> else ?s0)"
  have "makeroom_body env s =
          Some (if modified entry then fst (entry_write env (cache s) entry (zmap s)) else NC_NOERR,
                True, s1)"
    using xne last ent look scan wr
    by (simp add: makeroom_body_def ncxcachelast_def ncxcacheremove_def put_chunk_def
        entry_write_def s1_def)
  moreover have "heap s1 = (heap s)(e := None)" "mru (cache s1) = remove1 e (mru (cache s))"
    by (simp_all add: s1_def free_entry_def)
  ultimately show ?thesis using last ent(1) em by blast
qed

lemma makeroom_single_eviction:
  assumes wf: "wf_cache s" and full: "length (mru (cache s)) = Suc (maxentries (cache s))"
  shows "\<exists>h e entry s1. last (xcache (cache s)) = (h, e) \<and> heap s e = Some entry
     \<and> makeroom env s =
          Some (if modified entry then fst (entry_write env (cache s) entry (zmap s)) else NC_NOERR,
                s1)
     \<and> heap s1 = (heap s)(e := None) \<and> mru (cache s1) = remove1 e (mru (cache s))"
proof -
  from full have ne: "mru (cache s) \<noteq> []" by auto
  from makeroom_body_last [OF wf ne, of env] obtain h e entry s1 where
      l: "last (xcache (cache s)) = (h, e)" "heap s e = Some entry"
    and b: "makeroom_body env s =
          Some (if modified entry then fst (entry_write env (cache s) entry (zmap s)) else NC_NOERR,
                True, s1)"
    and r: "heap s1 = (heap s)(e := None)" "mru (cache s1) = remove1 e (mru (cache s))"
    and em: "e \<in> set (mru (cache s))"
    by blast
  from makeroom_body_config [OF b] have "maxentries (cache s1) = maxentries (cache s)"
    by (simp add: cache_config_def)
  moreover from em r(2) full have "length (mru (cache s1)) = maxentries (cache s)"
    by (simp add: length_remove1)
  ultimately have idle: "makeroom_loop env st s1 = Some (st, s1)" for st
    by (simp add: makeroom_loop_idle)
  have "makeroom env s =
          Some (if modified entry then fst (entry_write env (cache s) entry (zmap s)) else NC_NOERR,
                s1)"
    unfolding makeroom_def using full b idle by (subst makeroom_loop.simps) simp
  with l r show ?thesis by blast
qed

lemma filter_last_key:
  assumes "xc \<noteq> []" and "distinct (map fst xc)" and "last xc = (h, e)"
  shows "filter (\<lambda>kv. fst kv \<noteq> h) xc = butlast xc"
proof -
  have "butlast xc @ [last xc] = xc" using assms(1) by (rule append_butlast_last_id)
  with assms(3) have xc: "xc = butlast xc @ [(h, e)]" by simp
  have "distinct (map fst (butlast xc @ [(h, e)]))" using assms(2) xc by simp
  then have "h \<notin> fst ` set (butlast xc)" by simp
  then have "filter (\<lambda>kv. fst kv \<noteq> h) (butlast xc) = butlast xc"
    by (intro filter_True) force
  then have "filter (\<lambda>kv. fst kv \<noteq> h) (butlast xc @ [(h, e)]) = butlast xc" by simp
  with xc show ?thesis by simp
qed

lemma flushed_store_agree:
  assumes "\<forall>q \<in> set ps. h q = h' q"
    and "dimension_separator c = dimension_separator c'" and "chunksize c = chunksize c'"
  shows "flushed_store env c h ps m = flushed_store env c' h' ps m"
  using assms(1)
proof (induction ps arbitrary: m)
  case Nil
  show ?case by simp
next
  case (Cons p ps)
  have "entry_write env c e m = entry_write env c' e m" for e
    using assms(2,3) by (simp add: entry_write_def)
  with Cons show ?case by (simp split: option.splits)
qed

lemma makeroom_body_store:
  assumes wf: "wf_cache s" and ne: "mru (cache s) \<noteq> []"
  shows "\<exists>st e s1. makeroom_body env s = Some (st, True, s1)
     \<and> xcache (cache s) \<noteq> [] \<and> snd (last (xcache (cache s))) = e
     \<and> xcache (cache s1) = butlast (xcache (cache s))
     \<and> zmap s1 = flushed_store env (cache s) (heap s) [e] (zmap s)
     \<and> (\<forall>q. q \<noteq> e \<longrightarrow> heap s1 q = heap s q)"
proof -
  let ?xc = "xcache (cache s)"
  from wf have d1: "distinct (map fst ?xc)" and eq: "set (mru (cache s)) = snd ` set ?xc"
    and hp: "\<forall>kv \<in> set ?xc. \<exists>e. heap s (snd kv) = Some e \<and> hashkey e = fst kv \<and> data e \<noteq> None"
    by (simp_all add: wf_cache_def)
  from ne eq have xne: "?xc \<noteq> []" by auto
  obtain h e where last: "last ?xc = (h, e)" by (cases "last ?xc")
  with xne have mem: "(h, e) \<in> set ?xc" using last_in_set [of ?xc] by simp
  with hp obtain entry d where ent: "heap s e = Some entry" "hashkey entry = h" "data entry = Some d"
    by fastforce
  from mem d1 have look: "map_of ?xc h = Some e" by simp
  from mem eq have em: "e \<in> set (mru (cache s))" by force
  then obtain i where scan: "mru_scan e (mru (cache s)) = Some i"
    using mru_scan_remove1 by blast
  note fl = filter_last_key [OF xne d1 last]
  obtain st m where wr: "nczmap_write env (zmap s)
        (NCZ_chunkpath (key entry) (dimension_separator (cache s))) 0 (chunksize (cache s)) d = (st, m)"
    by (cases "nczmap_write env (zmap s)
        (NCZ_chunkpath (key entry) (dimension_separator (cache s))) 0 (chunksize (cache s)) d")
  let ?s0 = "s\<lparr>cache := (cache s)\<lparr>xcache := butlast ?xc,
                 mru := nclistremove (mru (cache s)) i\<rparr>\<rparr>"
  define s1 where "s1 = free_entry e (if modified entry then ?s0\<lparr>zmap := m\<rparr> else ?s0)"
  have b: "makeroom_body env s = Some (if modified entry then st else NC_NOERR, True, s1)"
    using xne last ent look scan wr fl
    by (simp add: makeroom_body_def ncxcachelast_def ncxcacheremove_def put_chunk_def s1_def)
  have "xcache (cache s1) = butlast ?xc" by (simp add: s1_def free_entry_def)
  moreover have "zmap s1 = flushed_store env (cache s) (heap s) [e] (zmap s)"
    using ent wr by (simp add: s1_def free_entry_def entry_write_def)
  moreover have "\<forall>q. q \<noteq> e \<longrightarrow> heap s1 q = heap s q" by (simp add: s1_def free_entry_def)
  ultimately show ?thesis using b xne last by auto
qed

lemma flushed_store_append:
  "flushed_store env c h (ps @ qs) m = flushed_store env c h qs (flushed_store env c h ps m)"
  by (induction ps arbitrary: m) simp_all

lemma makeroom_loop_store:
  assumes "wf_cache s"
  shows "\<exists>st s1 n. makeroom_loop env stat s = Some (st, s1)
     \<and> n \<le> length (xcache (cache s)) \<and> xcache (cache s1) = take n (xcache (cache s))
     \<and> zmap s1 = flushed_store env (cache s) (heap s)
          (rev (map snd (drop n (xcache (cache s))))) (zmap s)"
  using assms
proof (induction "length (mru (cache s))" arbitrary: s stat rule: less_induct)
  case less
  show ?case
  proof (cases "length (mru (cache s)) > maxentries (cache s)")
    case False
    then have "makeroom_loop env stat s = Some (stat, s)" by (simp add: makeroom_loop_idle)
    then show ?thesis by (intro exI [of _ stat] exI [of _ s] exI [of _ "length (xcache (cache s))"]) simp
  next
    case True
    then have ne: "mru (cache s) \<noteq> []" by auto
    let ?xc = "xcache (cache s)"
    from makeroom_body_store [OF less.prems ne, of env] obtain st0 e s0 where
        b: "makeroom_body env s = Some (st0, True, s0)" and xne: "?xc \<noteq> []"
      and e: "snd (last ?xc) = e" and x0: "xcache (cache s0) = butlast ?xc"
      and z0: "zmap s0 = flushed_store env (cache s) (heap s) [e] (zmap s)"
      and h0: "\<forall>q. q \<noteq> e \<longrightarrow> heap s0 q = heap s q"
      by blast
    from makeroom_body_wf [OF less.prems ne, of env] b have w0: "wf_cache s0"
      and l0: "Suc (length (mru (cache s0))) = length (mru (cache s))"
      and c0: "cache_config (cache s0) = cache_config (cache s)"
      by auto
    from l0 have "length (mru (cache s0)) < length (mru (cache s))" by simp
    from less.hyps [OF this w0, of st0] obtain st s1 n where
        r: "makeroom_loop env st0 s0 = Some (st, s1)"
      and n: "n \<le> length (xcache (cache s0))"
      and x1: "xcache (cache s1) = take n (xcache (cache s0))"
      and z1: "zmap s1 = flushed_store env (cache s0) (heap s0)
          (rev (map snd (drop n (xcache (cache s0))))) (zmap s0)"
      by blast
    have loop: "makeroom_loop env stat s = Some (st, s1)"
      using True b r by (subst makeroom_loop.simps) simp
    define ys where "ys = butlast ?xc"
    obtain h where last: "last ?xc = (h, e)" using e by (cases "last ?xc") simp
    have "butlast ?xc @ [last ?xc] = ?xc" using xne by (rule append_butlast_last_id)
    then have xc: "?xc = ys @ [(h, e)]" by (simp add: ys_def last)
    from n x0 have n': "n \<le> length ys" by (simp add: ys_def)
    have tk: "take n ys = take n ?xc" using n' by (simp add: xc)
    have dr: "drop n ?xc = drop n ys @ [(h, e)]" using n' by (simp add: xc)
    let ?rest = "rev (map snd (drop n ys))"
    have ev: "rev (map snd (drop n ?xc)) = e # ?rest" by (simp add: dr)
    from less.prems have "distinct (map snd ?xc)" by (simp add: wf_cache_def)
    then have "distinct (map snd (ys @ [(h, e)]))" using xc by simp
    then have "e \<notin> snd ` set ys" by simp
    then have "e \<notin> set ?rest" by (auto dest: in_set_dropD)
    with h0 have agree: "\<forall>q \<in> set ?rest. heap s0 q = heap s q" by auto
    from c0 have cf: "dimension_separator (cache s0) = dimension_separator (cache s)"
      "chunksize (cache s0) = chunksize (cache s)" by (simp_all add: cache_config_def)
    have "zmap s1 = flushed_store env (cache s0) (heap s0) ?rest (zmap s0)"
      using z1 x0 by (simp add: ys_def)
    also have "\<dots> = flushed_store env (cache s) (heap s) ?rest (zmap s0)"
      by (rule flushed_store_agree [OF agree cf])
    also have "\<dots> = flushed_store env (cache s) (heap s) (e # ?rest) (zmap s)"
    proof -
      have "flushed_store env (cache s) (heap s) ([e] @ ?rest) (zmap s)
          = flushed_store env (cache s) (heap s) ?rest (zmap s0)"
        unfolding flushed_store_append z0 ..
      then show ?thesis by simp
    qed
    finally have "zmap s1 = flushed_store env (cache s) (heap s)
        (rev (map snd (drop n ?xc))) (zmap s)" using ev by simp
    moreover have "xcache (cache s1) = take n ?xc" using x1 x0 tk by (simp add: ys_def)
    moreover have "n \<le> length ?xc" using n' by (simp add: xc)
    ultimately show ?thesis using loop by blast
  qed
qed

subsection \<open>Evaluation at concrete inputs\<close>

lemmas eval_simps =
  NCZ_read_cache_chunk_def read_miss_def read_done_def create_entry_def
  NCZ_write_cache_chunk_def NCZ_flush_chunk_cache_def NCZ_cache_size_def
  NCZ_adjust_var_cache_def floordiv_def
  makeroom_def makeroom_loop.simps makeroom_body_def put_chunk_def get_chunk_def
  NCZ_buildchunkpath_def NCZ_varkey_def NCZ_chunkpath_def cstring_def calloc_def
  free_entry_def store_into_def zero_entry_def nclistremove_def
  ncxcachelookup_def ncxcachetouch_def ncxcacheinsert_def ncxcacheremove_def ncxcachelast_def
  NCZ_buildchunkkey_def islegaldimsep_def buildchunkkey_step_def snprintf_lu_def
  cast_ulong_def digit_char_def buffer_of_def caller_fill_def Let_def
  test_env_def test_var_def test_state_def

lemma replicate_two: "replicate 2 x = [x, x]"
  by (simp add: numeral_2_eq_2)

lemma print_lu_digit: "n < 10 \<Longrightarrow> print_lu n = [digit_char n]"
  by (subst print_lu.simps) simp

lemmas test_simps = eval_simps replicate_two print_lu_digit test_entry_def test_state2_def

section \<open>The claims on the cache operations\<close>

text \<open>
  Claim C1 (a write followed by a read of the same indices returns the written bytes).
  The code does not do this. \<^verbatim>\<open>NCZ_write_cache_chunk\<close> stores nothing in \<^verbatim>\<open>*datap\<close> and
  puts its new entry on the recency list only, not in the hash index. On an empty cache
  over an empty store, a write of chunk 0 returns \<open>NC_NOERR\<close> and no buffer; even when the
  caller fills the buffer of the entry it created with the bytes 1, 2, the read of chunk 0
  that follows misses the index, creates a second entry and returns \<open>NC_EEMPTY\<close> with a
  buffer of zero bytes. (No call of the function stores a pointer: lemma
  \<open>write_stores_no_pointer\<close>.)
\<close>

theorem write_then_read_misses:
  "\<exists>s1 s2. NCZ_write_cache_chunk (test_env (\<lambda>_. False)) (test_state False 2 None []) [0]
               = Some (NC_NOERR, None, s1)
      \<and> mru (cache s1) = [0] \<and> xcache (cache s1) = []
      \<and> NCZ_read_cache_chunk (test_env (\<lambda>_. False)) (caller_fill s1 0 [1, 2]) [0]
               = Some (NC_EEMPTY, Some 1, s2)
      \<and> buffer_of s2 0 = Some [1, 2] \<and> buffer_of s2 1 = Some [0, 0]
      \<and> mru (cache s2) = [0, 1] \<and> xcache (cache s2) = [(217, 1)]"
  by (simp add: test_simps)

text \<open>
  Claim C2. For every sequence of reads, writes and flushes on a cache of capacity \<open>N\<close>
  (\<open>maxentries\<close>), between two operations the hash index holds at most \<open>N\<close> entries, as
  many as the recency list; in particular, whenever \<^verbatim>\<open>makeroom\<close> returns successfully the
  entry count is less than \<open>maxentries\<close>. The code does not keep this bound. The comment on
  the loop of \<^verbatim>\<open>makeroom\<close> reads \<^verbatim>\<open>Flush from LRU end if we are at capacity\<close>, but the loop
  runs only while the recency list is longer than \<open>maxentries\<close>, so a cache that is at
  capacity is left as it is and the entry added afterwards exceeds the capacity. On an
  empty cache of capacity 1: after one read \<^verbatim>\<open>makeroom\<close> returns \<open>NC_NOERR\<close> and evicts
  nothing, with one entry, which is not less than \<open>maxentries\<close>; after a second read, of
  another chunk, the index and the recency list hold two entries. And after one write the
  recency list holds an entry and the index holds none, since \<^verbatim>\<open>NCZ_write_cache_chunk\<close>
  pushes the entry on the list without inserting it into the index.
\<close>

theorem capacity_exceeded_by_one:
  "\<exists>s1 s2 s3. run_ops (test_env (\<lambda>_. False)) (test_state False 1 None []) [Read [0]] = Some s1
      \<and> makeroom (test_env (\<lambda>_. False)) s1 = Some (NC_NOERR, s1)
      \<and> \<not> length (mru (cache s1)) < maxentries (cache s1)
      \<and> run_ops (test_env (\<lambda>_. False)) (test_state False 1 None []) [Read [0], Read [1]] = Some s2
      \<and> maxentries (cache s2) = 1
      \<and> length (xcache (cache s2)) = 2 \<and> length (mru (cache s2)) = 2
      \<and> \<not> length (xcache (cache s2)) \<le> maxentries (cache s2)
      \<and> run_ops (test_env (\<lambda>_. False)) (test_state False 1 None []) [Write [0]] = Some s3
      \<and> length (xcache (cache s3)) = 0 \<and> length (mru (cache s3)) = 1"
  by (simp add: test_simps)

text \<open>
  The excess is one entry and no more. On a consistent cache that holds at most
  \<open>maxentries + 1\<close> entries, every sequence of reads and flushes returns and leaves the
  index and the recency list with the same number of entries, at most \<open>maxentries + 1\<close>;
  and \<^verbatim>\<open>makeroom\<close>, when it returns \<open>NC_NOERR\<close>, leaves at most \<open>maxentries\<close> entries.
\<close>

lemma entry_counts_after_reads:
  assumes "wf_cache s" and "islegaldimsep (dimension_separator (cache s))"
    and "length (mru (cache s)) \<le> Suc (maxentries (cache s))"
    and "list_all (read_or_flush (ndims (cache s))) ops"
  shows "(\<exists>s'. run_ops env s ops = Some s'
            \<and> length (xcache (cache s')) = length (mru (cache s'))
            \<and> length (mru (cache s')) \<le> Suc (maxentries (cache s'))
            \<and> maxentries (cache s') = maxentries (cache s))
         \<and> (\<forall>t t'. makeroom env t = Some (NC_NOERR, t')
               \<longrightarrow> length (mru (cache t')) \<le> maxentries (cache t'))"
proof
  from run_ops_wf [OF assms, of env] obtain s' where
      r: "run_ops env s ops = Some s'" and w: "wf_cache s'"
    and c: "cache_config (cache s') = cache_config (cache s)"
    and l: "length (mru (cache s')) \<le> Suc (maxentries (cache s'))" by blast
  from r wf_cache_lengths [OF w] l cache_config_fields [OF c]
  show "\<exists>s'. run_ops env s ops = Some s'
            \<and> length (xcache (cache s')) = length (mru (cache s'))
            \<and> length (mru (cache s')) \<le> Suc (maxentries (cache s'))
            \<and> maxentries (cache s') = maxentries (cache s)" by simp
next
  show "\<forall>t t'. makeroom env t = Some (NC_NOERR, t')
               \<longrightarrow> length (mru (cache t')) \<le> maxentries (cache t')"
    unfolding makeroom_def by (blast dest: makeroom_loop_bound)
qed

text \<open>
  Claim C3, amended. \<^verbatim>\<open>FILLONREAD\<close> is undefined, so \<^verbatim>\<open>cache->fillchunk\<close> is never
  consulted: when a read misses and the store reports the chunk absent, the buffer handed
  out is \<open>chunksize\<close> zero bytes whether or not \<open>fillchunk\<close> is set, and \<open>fillchunk\<close> is
  left as it was.
\<close>

theorem read_absent_chunk_is_zero_filled:
  assumes len: "ndims (cache s) \<le> length idx"
    and miss: "ncxcachelookup (xcache (cache s)) (ncxcachekey env (take (ndims (cache s)) idx))
                 = (NC_ENOTFOUND, None)"
    and mk: "makeroom env s = Some (NC_NOERR, s1)"
    and ce: "create_entry env s1 idx (ncxcachekey env (take (ndims (cache s)) idx))
               = Some (NC_NOERR, Some p, s2)"
    and gc: "get_chunk env s2 p = Some (NC_EEMPTY, s3)"
  shows "\<exists>s'. NCZ_read_cache_chunk env s idx = Some (NC_EEMPTY, Some p, s')
     \<and> buffer_of s' p = Some (replicate (chunksize (cache s)) 0)
     \<and> fillchunk (cache s') = fillchunk (cache s)"
proof -
  let ?hkey = "ncxcachekey env (take (ndims (cache s)) idx)"
  from mk have "cache_config (cache s1) = cache_config (cache s)"
    unfolding makeroom_def by (rule makeroom_loop_config)
  then have v: "chunksize (cache s1) = chunksize (cache s)" "fillchunk (cache s1) = fillchunk (cache s)"
    by (simp_all add: cache_config_def)
  from read_miss_stored [OF mk ce gc] obtain e3 s4 where
      r: "read_miss env s idx ?hkey = Some (NC_EEMPTY, Some p, s4)"
    and h4: "heap s4 = (heap s3)(p \<mapsto> e3\<lparr>modified := \<not> no_write (var (cache s1)),
                    data := Some (replicate (chunksize (cache s1)) 0)\<rparr>)"
    and c4: "cache s4 = (cache s1)\<lparr>mru := mru (cache s1) @ [p],
            xcache := (?hkey, p) # filter (\<lambda>kv. fst kv \<noteq> ?hkey) (xcache (cache s1))\<rparr>"
    by auto
  have "NCZ_read_cache_chunk env s idx = Some (NC_EEMPTY, Some p, s4)"
    using read_miss_eq [OF len miss] r by simp
  moreover have "buffer_of s4 p = Some (replicate (chunksize (cache s)) 0)"
    by (simp add: buffer_of_def h4 v)
  moreover have "fillchunk (cache s4) = fillchunk (cache s)" by (simp add: c4 v)
  ultimately show ?thesis by blast
qed

theorem read_absent_chunk_is_zero_filled_witness:
  "\<exists>s'. NCZ_read_cache_chunk (test_env (\<lambda>_. False)) (test_state False 1 (Some [1, 2]) []) [0]
            = Some (NC_EEMPTY, Some 0, s')
      \<and> buffer_of s' 0 = Some [0, 0] \<and> fillchunk (cache s') = Some [1, 2]"
proof -
  let ?env = "test_env (\<lambda>_. False)"
  let ?s = "test_state False 1 (Some [1, 2]) []"
  have len: "ndims (cache ?s) \<le> length [0 :: size64]" by (simp add: test_simps)
  have miss: "ncxcachelookup (xcache (cache ?s)) (ncxcachekey ?env (take (ndims (cache ?s)) [0]))
      = (NC_ENOTFOUND, None)"
    by (simp add: test_simps)
  have mk: "makeroom ?env ?s = Some (NC_NOERR, ?s)" by (simp add: test_simps)
  have "\<exists>s2 s3. create_entry ?env ?s [0] (ncxcachekey ?env (take (ndims (cache ?s)) [0]))
            = Some (NC_NOERR, Some 0, s2) \<and> get_chunk ?env s2 0 = Some (NC_EEMPTY, s3)"
    by (simp add: test_simps)
  then obtain s2 s3 where
      ce: "create_entry ?env ?s [0] (ncxcachekey ?env (take (ndims (cache ?s)) [0]))
            = Some (NC_NOERR, Some 0, s2)"
    and gc: "get_chunk ?env s2 0 = Some (NC_EEMPTY, s3)" by blast
  from read_absent_chunk_is_zero_filled [OF len miss mk ce gc] show ?thesis
    by (simp add: test_simps)
qed

text \<open>
  Claim C3 as stated fails where \<open>fillchunk\<close> is set: with a fill chunk of two bytes
  \<open>0xAA\<close>, the buffer fabricated for an absent chunk is two zero bytes.
\<close>

theorem fillchunk_not_used_counterexample:
  "\<exists>s'. NCZ_read_cache_chunk (test_env (\<lambda>_. False)) (test_state False 1 (Some [170, 170]) []) [0]
            = Some (NC_EEMPTY, Some 0, s')
      \<and> fillchunk (cache (test_state False 1 (Some [170, 170]) [])) = Some [170, 170]
      \<and> buffer_of s' 0 = Some [0, 0]
      \<and> buffer_of s' 0 \<noteq> fillchunk (cache (test_state False 1 (Some [170, 170]) []))"
  by (simp add: test_simps)

text \<open>
  Claim C4 (\<^verbatim>\<open>makeroom\<close> returns the error of a failed eviction write). The code does not
  always do this: \<^verbatim>\<open>stat=put_chunk(cache,e)\<close> is not followed by a \<^verbatim>\<open>goto done\<close>, and
  the next pass through the loop overwrites \<open>stat\<close> with the status of
  \<^verbatim>\<open>ncxcacheremove\<close>. Two reads on an empty writable store leave two modified entries;
  the store refuses writes to the path of chunk 0. With capacity 1, \<^verbatim>\<open>makeroom\<close> evicts
  chunk 0 only, drops it and returns the error. With capacity 0, as
  \<^verbatim>\<open>NCZ_adjust_var_cache\<close> sets it, \<^verbatim>\<open>makeroom\<close> evicts both, chunk 0 is dropped
  unwritten, and it returns \<open>NC_NOERR\<close>. (A call that evicts one entry only returns the
  status of that entry's write: lemma \<open>makeroom_single_eviction\<close>.)
\<close>

theorem makeroom_loses_write_error:
  "\<exists>s2 s3 s4. run_ops (test_env (\<lambda>path. path = ''/v.0'')) (test_state False 2 None [])
                  [Read [0], Read [1]] = Some s2
      \<and> mru (cache s2) = [0, 1]
      \<and> map_option modified (heap s2 0) = Some True
      \<and> map_option modified (heap s2 1) = Some True
      \<and> makeroom (test_env (\<lambda>path. path = ''/v.0''))
           (s2\<lparr>cache := (cache s2)\<lparr>maxentries := 1\<rparr>\<rparr>) = Some (NC_EOTHER (- 1), s4)
      \<and> mru (cache s4) = [1] \<and> zmap s4 = []
      \<and> makeroom (test_env (\<lambda>path. path = ''/v.0''))
           (s2\<lparr>cache := (cache s2)\<lparr>maxentries := 0\<rparr>\<rparr>) = Some (NC_NOERR, s3)
      \<and> mru (cache s3) = [] \<and> xcache (cache s3) = [] \<and> dom (heap s3) = {}
      \<and> zmap s3 = [(''/v.1'', [0, 0])]"
  by (simp add: test_simps)

text \<open>
  Claim C5. When a read misses, \<^verbatim>\<open>makeroom\<close> and the creation of the entry succeed and
  the store reports the chunk absent (\<open>NC_EEMPTY\<close>), the read does not fail: it returns
  \<open>NC_EEMPTY\<close> as the signal that the chunk was created, hands out the new entry's
  buffer, and has put the entry at the end of the recency list and in the hash index; the
  entry is marked modified iff the file is not read-only. An entry fabricated on a
  read-only file is unmodified, so a pass of \<^verbatim>\<open>makeroom\<close> that evicts it leaves the store
  as it is.
\<close>

theorem read_absent_chunk_is_created:
  assumes len: "ndims (cache s) \<le> length idx"
    and miss: "ncxcachelookup (xcache (cache s)) (ncxcachekey env (take (ndims (cache s)) idx))
                 = (NC_ENOTFOUND, None)"
    and mk: "makeroom env s = Some (NC_NOERR, s1)"
    and ce: "create_entry env s1 idx (ncxcachekey env (take (ndims (cache s)) idx))
               = Some (NC_NOERR, Some p, s2)"
    and gc: "get_chunk env s2 p = Some (NC_EEMPTY, s3)"
  shows "\<exists>e s'. NCZ_read_cache_chunk env s idx = Some (NC_EEMPTY, Some p, s')
     \<and> heap s' p = Some e \<and> data e \<noteq> None
     \<and> modified e = (\<not> no_write (var (cache s)))
     \<and> mru (cache s') = mru (cache s1) @ [p]
     \<and> ncxcachelookup (xcache (cache s')) (ncxcachekey env (take (ndims (cache s)) idx))
          = (NC_NOERR, Some p)
     \<and> (no_write (var (cache s)) \<longrightarrow>
          (\<forall>t st go t'. ncxcachelast (xcache (cache t)) = Some p \<and> heap t p = Some e
               \<and> makeroom_body env t = Some (st, go, t') \<longrightarrow> zmap t' = zmap t))"
proof -
  let ?hkey = "ncxcachekey env (take (ndims (cache s)) idx)"
  from mk have "cache_config (cache s1) = cache_config (cache s)"
    unfolding makeroom_def by (rule makeroom_loop_config)
  then have v: "var (cache s1) = var (cache s)" by (simp add: cache_config_def)
  from read_miss_stored [OF mk ce gc] obtain e3 s4 where
      r: "read_miss env s idx ?hkey = Some (NC_EEMPTY, Some p, s4)"
    and h4: "heap s4 = (heap s3)(p \<mapsto> e3\<lparr>modified := \<not> no_write (var (cache s1)),
                    data := Some (replicate (chunksize (cache s1)) 0)\<rparr>)"
    and c4: "cache s4 = (cache s1)\<lparr>mru := mru (cache s1) @ [p],
            xcache := (?hkey, p) # filter (\<lambda>kv. fst kv \<noteq> ?hkey) (xcache (cache s1))\<rparr>"
    by auto
  let ?e = "e3\<lparr>modified := \<not> no_write (var (cache s)),
                data := Some (replicate (chunksize (cache s1)) 0)\<rparr>"
  have 1: "NCZ_read_cache_chunk env s idx = Some (NC_EEMPTY, Some p, s4)"
    using read_miss_eq [OF len miss] r by simp
  have 2: "heap s4 p = Some ?e" by (simp add: h4 v)
  have 3: "mru (cache s4) = mru (cache s1) @ [p]" by (simp add: c4)
  have 4: "ncxcachelookup (xcache (cache s4)) ?hkey = (NC_NOERR, Some p)"
    by (simp add: c4 ncxcachelookup_def)
  have 5: "no_write (var (cache s)) \<longrightarrow>
          (\<forall>t st go t'. ncxcachelast (xcache (cache t)) = Some p \<and> heap t p = Some ?e
               \<and> makeroom_body env t = Some (st, go, t') \<longrightarrow> zmap t' = zmap t)"
  proof (intro impI allI)
    fix t st go t'
    assume "no_write (var (cache s))"
      and "ncxcachelast (xcache (cache t)) = Some p \<and> heap t p = Some ?e
               \<and> makeroom_body env t = Some (st, go, t')"
    then show "zmap t' = zmap t"
      using makeroom_body_unmodified [of t p ?e env st go t'] by simp
  qed
  from 1 2 3 4 5 show ?thesis
    by (intro exI [of _ ?e] exI [of _ s4]) simp
qed

theorem read_absent_chunk_is_created_witness:
  "\<exists>e s'. NCZ_read_cache_chunk (test_env (\<lambda>_. False)) (test_state True 1 None []) [0]
              = Some (NC_EEMPTY, Some 0, s')
      \<and> heap s' 0 = Some e \<and> \<not> modified e \<and> mru (cache s') = [0]"
proof -
  let ?env = "test_env (\<lambda>_. False)"
  let ?s = "test_state True 1 None []"
  have len: "ndims (cache ?s) \<le> length [0 :: size64]" by (simp add: test_simps)
  have miss: "ncxcachelookup (xcache (cache ?s)) (ncxcachekey ?env (take (ndims (cache ?s)) [0]))
      = (NC_ENOTFOUND, None)"
    by (simp add: test_simps)
  have mk: "makeroom ?env ?s = Some (NC_NOERR, ?s)" by (simp add: test_simps)
  have "\<exists>s2 s3. create_entry ?env ?s [0] (ncxcachekey ?env (take (ndims (cache ?s)) [0]))
            = Some (NC_NOERR, Some 0, s2) \<and> get_chunk ?env s2 0 = Some (NC_EEMPTY, s3)"
    by (simp add: test_simps)
  then obtain s2 s3 where
      ce: "create_entry ?env ?s [0] (ncxcachekey ?env (take (ndims (cache ?s)) [0]))
            = Some (NC_NOERR, Some 0, s2)"
    and gc: "get_chunk ?env s2 0 = Some (NC_EEMPTY, s3)" by blast
  from read_absent_chunk_is_created [OF len miss mk ce gc] obtain e s' where
      "NCZ_read_cache_chunk ?env ?s [0] = Some (NC_EEMPTY, Some 0, s')"
      "heap s' 0 = Some e" "modified e = (\<not> no_write (var (cache ?s)))"
      "mru (cache s') = mru (cache ?s) @ [0]"
    by blast
  then show ?thesis by (auto simp: test_simps)
qed



text \<open>
  Claim C7. On a consistent cache whose variable has a nonzero chunk size,
  \<^verbatim>\<open>NCZ_adjust_var_cache\<close> first runs \<^verbatim>\<open>makeroom\<close> with the capacity set to 0, which
  empties the recency list and the index, frees the entries and hands the store the
  writes of the modified entries, least recently used first; it then returns
  \<open>NC_NOERR\<close> with the capacity \<open>max 1 (budget div chunksize)\<close>, hence 1 for a budget below
  the chunk size, the cache's chunk size refreshed from the variable, and no fill chunk.
\<close>

theorem adjust_var_cache_result:
  assumes "wf_cache s" and "0 < zvar_chunksize (var (cache s))"
  shows "\<exists>st1 s1 s'.
       makeroom env (s\<lparr>cache := (cache s)\<lparr>maxentries := 0\<rparr>\<rparr>) = Some (st1, s1)
     \<and> mru (cache s1) = [] \<and> xcache (cache s1) = []
     \<and> dom (heap s1) = dom (heap s) - set (mru (cache s))
     \<and> zmap s1 = flushed_store env (cache s) (heap s)
                    (rev (map snd (xcache (cache s)))) (zmap s)
     \<and> NCZ_adjust_var_cache env s = Some (NC_NOERR, s')
     \<and> s' = s1\<lparr>cache := (cache s1)\<lparr>
               maxentries := max 1 (chunk_cache_size (var (cache s)) div zvar_chunksize (var (cache s))),
               chunksize := zvar_chunksize (var (cache s)),
               fillchunk := None\<rparr>\<rparr>
     \<and> (chunk_cache_size (var (cache s)) < zvar_chunksize (var (cache s))
            \<longrightarrow> maxentries (cache s') = 1)"
proof -
  let ?s0 = "s\<lparr>cache := (cache s)\<lparr>maxentries := 0\<rparr>\<rparr>"
  have wf0: "wf_cache ?s0" using assms(1) by (simp add: wf_cache_def)
  from makeroom_loop_wf [OF wf0, of env NC_NOERR] obtain st1 s1 where
      mk: "makeroom env ?s0 = Some (st1, s1)" and wf1: "wf_cache s1"
    and l1: "length (mru (cache s1)) \<le> maxentries (cache s1)"
    and c1: "cache_config (cache s1) = cache_config (cache ?s0)"
    and dm: "dom (heap s1) = dom (heap ?s0) - (set (mru (cache ?s0)) - set (mru (cache s1)))"
    unfolding makeroom_def by blast
  from c1 have v: "var (cache s1) = var (cache s)" and m0: "maxentries (cache s1) = 0"
    by (simp_all add: cache_config_def)
  from l1 m0 have e1: "mru (cache s1) = []" by simp
  with wf1 have e2: "xcache (cache s1) = []" by (simp add: wf_cache_def)
  from dm e1 have d: "dom (heap s1) = dom (heap s) - set (mru (cache s))" by simp
  from makeroom_loop_store [OF wf0, of env NC_NOERR] mk obtain n where
      x: "xcache (cache s1) = take n (xcache (cache ?s0))"
    and z: "zmap s1 = flushed_store env (cache ?s0) (heap ?s0)
          (rev (map snd (drop n (xcache (cache ?s0))))) (zmap ?s0)"
    unfolding makeroom_def by auto
  from x e2 have "drop n (xcache (cache s)) = xcache (cache s)" by (cases n) auto
  with z have "zmap s1 = flushed_store env (cache ?s0) (heap s)
      (rev (map snd (xcache (cache s)))) (zmap s)" by simp
  also have "\<dots> = flushed_store env (cache s) (heap s) (rev (map snd (xcache (cache s)))) (zmap s)"
    by (rule flushed_store_agree) simp_all
  finally have zz: "zmap s1 = flushed_store env (cache s) (heap s)
      (rev (map snd (xcache (cache s)))) (zmap s)" .
  let ?n = "chunk_cache_size (var (cache s)) div zvar_chunksize (var (cache s))"
  have n: "(if ?n = 0 then 1 else ?n) = max 1 ?n" by simp
  have r: "NCZ_adjust_var_cache env s = Some (NC_NOERR,
      s1\<lparr>cache := (cache s1)\<lparr>maxentries := max 1 ?n,
            chunksize := zvar_chunksize (var (cache s)), fillchunk := None\<rparr>\<rparr>)"
    using mk v assms(2) by (simp add: NCZ_adjust_var_cache_def floordiv_def Let_def n del: max_0_1)
  from mk e1 e2 d zz r show ?thesis by simp
qed

theorem adjust_var_cache_result_witness:
  "\<exists>st1 s1 s'.
       makeroom (test_env (\<lambda>_. False))
         ((test_state2 True False 2)\<lparr>cache := (cache (test_state2 True False 2))\<lparr>maxentries := 0\<rparr>\<rparr>)
         = Some (st1, s1)
     \<and> mru (cache s1) = [] \<and> xcache (cache s1) = [] \<and> zmap s1 = [(''/v.0'', [0, 0])]
     \<and> NCZ_adjust_var_cache (test_env (\<lambda>_. False)) (test_state2 True False 2) = Some (NC_NOERR, s')
     \<and> maxentries (cache s') = 2 \<and> chunksize (cache s') = 2 \<and> fillchunk (cache s') = None"
proof -
  let ?s = "test_state2 True False 2"
  have h1: "wf_cache ?s" by (auto simp: wf_cache_def test_simps)
  have h2: "0 < zvar_chunksize (var (cache ?s))" by (simp add: test_simps)
  from adjust_var_cache_result [OF h1 h2, of "test_env (\<lambda>_. False)"] obtain st1 s1 s' where
      a: "makeroom (test_env (\<lambda>_. False)) (?s\<lparr>cache := (cache ?s)\<lparr>maxentries := 0\<rparr>\<rparr>) = Some (st1, s1)"
        "mru (cache s1) = []" "xcache (cache s1) = []"
        "NCZ_adjust_var_cache (test_env (\<lambda>_. False)) ?s = Some (NC_NOERR, s')"
    and z: "zmap s1 = flushed_store (test_env (\<lambda>_. False)) (cache ?s) (heap ?s)
                    (rev (map snd (xcache (cache ?s)))) (zmap ?s)"
    and b: "s' = s1\<lparr>cache := (cache s1)\<lparr>
               maxentries := max 1 (chunk_cache_size (var (cache ?s)) div zvar_chunksize (var (cache ?s))),
               chunksize := zvar_chunksize (var (cache ?s)),
               fillchunk := None\<rparr>\<rparr>"
    by blast
  from b have "maxentries (cache s') = 2" "chunksize (cache s') = 2" "fillchunk (cache s') = None"
    by (simp_all add: test_state2_def test_var_def)
  moreover from z have "zmap s1 = [(''/v.0'', [0, 0])]"
    by (simp add: test_simps entry_write_def)
  ultimately show ?thesis using a by blast
qed

section \<open>The claims on the chunk-key codec\<close>

text \<open>
  Claim C8. \<^verbatim>\<open>NCZ_buildchunkkey(R, chunkindices, dimsep)\<close> returns the string
  \<open>i0<sep>i1<sep>\<dots><sep>i{R-1}\<close> in which each index is printed in base 10 with no
  padding and no leading zero, and the empty string for \<open>R = 0\<close>. The code does not print
  every index: the indices are of the 64-bit type \<^verbatim>\<open>size64_t\<close>, and the line under the
  comment \<^verbatim>\<open>Print as decimal with no leading zeros\<close> casts each of them to
  \<^verbatim>\<open>unsigned long\<close> for the format \<^verbatim>\<open>%lu\<close>. Where \<^verbatim>\<open>unsigned long\<close> has 32 bits the cast
  cuts the index down: for rank 1 and the index \<open>2^32 = 4294967296\<close> the key is \<open>0\<close>,
  the numeral of 0 and not of the index, while with a 64-bit \<^verbatim>\<open>unsigned long\<close> the same
  call gives \<open>4294967296\<close>.
\<close>

theorem buildchunkkey_truncated_numeral:
  "NCZ_buildchunkkey 32 1 [4294967296] CHR ''.'' = Some (NC_NOERR, ''0'')
   \<and> unat (4294967296 :: size64) = 4294967296
   \<and> dec_value ''0'' = 0
   \<and> NCZ_buildchunkkey 64 1 [4294967296] CHR ''.'' = Some (NC_NOERR, ''4294967296'')"
  by (simp add: NCZ_buildchunkkey_def islegaldimsep_def buildchunkkey_step_def
      snprintf_lu_def cast_ulong_def print_lu_digit print_lu.simps digit_char_def upt_rec
      dec_value_def digit_val_def)

text \<open>
  Claim C9. For every rank \<open>r\<close>, every legal separator and every two index tuples
  \<open>a \<noteq> b\<close> of rank \<open>r\<close>, \<^verbatim>\<open>NCZ_buildchunkkey\<close> returns two different keys. The code
  does not tell all tuples apart: where \<^verbatim>\<open>unsigned long\<close> has 32 bits, the cast of each
  \<^verbatim>\<open>size64_t\<close> index to \<^verbatim>\<open>unsigned long\<close> gives the tuples \<open>(4294967296)\<close> and \<open>(0)\<close>
  of rank 1 the same key \<open>0\<close>, so the two chunks share one path in the store.
\<close>

theorem buildchunkkey_truncated_collision:
  "[4294967296] \<noteq> [0 :: size64]
   \<and> NCZ_buildchunkkey 32 1 [4294967296] CHR ''.'' = Some (NC_NOERR, ''0'')
   \<and> NCZ_buildchunkkey 32 1 [0] CHR ''.'' = Some (NC_NOERR, ''0'')"
  by (simp add: NCZ_buildchunkkey_def islegaldimsep_def buildchunkkey_step_def
      snprintf_lu_def cast_ulong_def print_lu_digit digit_char_def upt_rec)

text \<open>
  Where \<^verbatim>\<open>unsigned long\<close> is at least 64 bits wide the cast changes nothing. Then, for a
  legal separator and an array of at least \<open>R\<close> indices, the key is the join, with the
  separator, of \<open>R\<close> strings of which the \<open>r\<close>-th is the base-10 numeral of
  \<open>chunkindices[r]\<close>, with no padding and no leading zero; for \<open>R = 0\<close> it is the empty
  string.
\<close>

lemma buildchunkkey_format_64:
  assumes "islegaldimsep sep" and "R \<le> length idx" and "64 \<le> ulbits"
  shows "\<exists>ds. NCZ_buildchunkkey ulbits R idx sep = Some (NC_NOERR, join_sep sep ds)
           \<and> length ds = R
           \<and> (\<forall>r < R. is_decimal_of (ds ! r) (unat (idx ! r)))
           \<and> (R = 0 \<longrightarrow> NCZ_buildchunkkey ulbits R idx sep = Some (NC_NOERR, []))"
proof -
  let ?ds = "map (\<lambda>i. print_lu (unat i)) (take R idx)"
  have "NCZ_buildchunkkey ulbits R idx sep = Some (NC_NOERR, join_sep sep ?ds)"
    using assms by (rule buildchunkkey_eq)
  moreover have "length ?ds = R" using assms(2) by simp
  moreover have "\<forall>r < R. is_decimal_of (?ds ! r) (unat (idx ! r))"
    using assms(2) by (simp add: print_lu_decimal)
  ultimately show ?thesis by (intro exI [of _ ?ds]) auto
qed

text \<open>
  And there the codec is injective on tuples of the same rank: two different index tuples
  of rank \<open>r\<close> get two different keys.
\<close>

lemma buildchunkkey_injective_64:
  assumes "islegaldimsep sep" and "64 \<le> ulbits"
    and "length a = r" and "length b = r" and "a \<noteq> b"
  shows "\<exists>ka kb. NCZ_buildchunkkey ulbits r a sep = Some (NC_NOERR, ka)
           \<and> NCZ_buildchunkkey ulbits r b sep = Some (NC_NOERR, kb) \<and> ka \<noteq> kb"
proof -
  let ?p = "\<lambda>i :: size64. print_lu (unat i)"
  have ka: "NCZ_buildchunkkey ulbits r a sep = Some (NC_NOERR, join_sep sep (map ?p a))"
    using buildchunkkey_eq [OF assms(1) _ assms(2), of r a] assms(3) by simp
  have kb: "NCZ_buildchunkkey ulbits r b sep = Some (NC_NOERR, join_sep sep (map ?p b))"
    using buildchunkkey_eq [OF assms(1) _ assms(2), of r b] assms(4) by simp
  have "join_sep sep (map ?p a) \<noteq> join_sep sep (map ?p b)"
  proof
    assume eq: "join_sep sep (map ?p a) = join_sep sep (map ?p b)"
    have "\<forall>s \<in> set (map ?p a) \<union> set (map ?p b). sep \<notin> set s"
      using sep_notin_print_lu [OF assms(1)] by auto
    with eq assms(3,4) have "map ?p a = map ?p b"
      by (intro join_sep_inj [of _ _ sep]) simp_all
    then have "a = b" using print_index_inj by (simp add: inj_map_eq_map)
    with assms(5) show False by simp
  qed
  with ka kb show ?thesis by blast
qed

text \<open>
  The keys of the specification's scenarios: indices \<open>(2, 4)\<close> with \<open>.\<close>, index \<open>(0)\<close>
  with \<open>/\<close>, and rank 0.
\<close>

lemma buildchunkkey_examples:
  "NCZ_buildchunkkey 64 2 [2, 4] CHR ''.'' = Some (NC_NOERR, ''2.4'')"
  "NCZ_buildchunkkey 64 1 [0] CHR ''/'' = Some (NC_NOERR, ''0'')"
  "NCZ_buildchunkkey 64 0 [] CHR ''.'' = Some (NC_NOERR, [])"
  by (simp_all add: NCZ_buildchunkkey_def islegaldimsep_def buildchunkkey_step_def
      snprintf_lu_def cast_ulong_def print_lu_digit digit_char_def upt_rec)

section \<open>The claim on a failed read\<close>

text \<open>
  Claim C10. When a read misses on a consistent cache, \<^verbatim>\<open>makeroom\<close> succeeds, and then
  either the creation of the entry fails (an allocation of the entry, of its buffer or of
  its key) or the store's read fails with a status other than \<open>NC_EEMPTY\<close>, the read
  returns that status and no buffer; the heap, the recency list and the index are exactly
  as \<^verbatim>\<open>makeroom\<close> left them, so the new entry is freed and in neither container, and
  the entries that \<^verbatim>\<open>makeroom\<close> evicted stay evicted.
\<close>

theorem read_miss_failure_cleanup:
  assumes wf: "wf_cache s" and len: "ndims (cache s) \<le> length idx"
    and miss: "ncxcachelookup (xcache (cache s)) (ncxcachekey env (take (ndims (cache s)) idx))
                 = (NC_ENOTFOUND, None)"
    and mk: "makeroom env s = Some (NC_NOERR, s1)"
    and fail: "(\<exists>ent s2. create_entry env s1 idx (ncxcachekey env (take (ndims (cache s)) idx))
                    = Some (st, ent, s2) \<and> st \<noteq> NC_NOERR)
             \<or> (\<exists>p s2 s3. create_entry env s1 idx (ncxcachekey env (take (ndims (cache s)) idx))
                    = Some (NC_NOERR, Some p, s2)
                  \<and> get_chunk env s2 p = Some (st, s3) \<and> st \<noteq> NC_NOERR \<and> st \<noteq> NC_EEMPTY)"
  shows "\<exists>s'. NCZ_read_cache_chunk env s idx = Some (st, None, s') \<and> st \<noteq> NC_NOERR
     \<and> heap s' = heap s1
     \<and> mru (cache s') = mru (cache s1) \<and> xcache (cache s') = xcache (cache s1)
     \<and> set (mru (cache s1)) \<subseteq> set (mru (cache s))
     \<and> dom (heap s') = dom (heap s) - (set (mru (cache s)) - set (mru (cache s1)))"
proof -
  let ?hkey = "ncxcachekey env (take (ndims (cache s)) idx)"
  note m = makeroom_wf [OF wf mk]
  from m have wf1: "wf_cache s1" and sub: "set (mru (cache s1)) \<subseteq> set (mru (cache s))"
    and dm: "dom (heap s1) = dom (heap s) - (set (mru (cache s)) - set (mru (cache s1)))"
    by simp_all
  note eq = read_miss_eq [OF len miss]
  from fail show ?thesis
  proof
    assume "\<exists>ent s2. create_entry env s1 idx ?hkey = Some (st, ent, s2) \<and> st \<noteq> NC_NOERR"
    then obtain ent s2 where ce: "create_entry env s1 idx ?hkey = Some (st, ent, s2)"
      and st: "st \<noteq> NC_NOERR" by blast
    from create_entry_frame [OF ce] have c2: "cache s2 = cache s1" and k2: "brk s1 \<le> brk s2"
      and o2: "\<forall>q. q \<noteq> brk s1 \<longrightarrow> heap s2 q = heap s1 q"
      and ent: "ent = None \<or> ent = Some (brk s1)" and h2: "ent = None \<longrightarrow> heap s2 = heap s1"
      by simp_all
    from ent show ?thesis
    proof
      assume n: "ent = None"
      with mk ce st have "read_miss env s idx ?hkey = Some (st, None, s2)"
        by (simp add: read_miss_def read_done_def)
      with eq n h2 c2 st sub dm show ?thesis by simp
    next
      assume p: "ent = Some (brk s1)"
      with mk ce st have "read_miss env s idx ?hkey = Some (st, None, free_entry (brk s1) s2)"
        by (simp add: read_miss_def read_done_def)
      moreover from wf_cache_free_fresh [OF wf1 c2 o2 k2]
      have "heap (free_entry (brk s1) s2) = heap s1" by simp
      moreover have "cache (free_entry (brk s1) s2) = cache s1" using c2 by (simp add: free_entry_def)
      ultimately show ?thesis using eq st sub dm by simp
    qed
  next
    assume "\<exists>p s2 s3. create_entry env s1 idx ?hkey = Some (NC_NOERR, Some p, s2)
              \<and> get_chunk env s2 p = Some (st, s3) \<and> st \<noteq> NC_NOERR \<and> st \<noteq> NC_EEMPTY"
    then obtain p s2 s3 where ce: "create_entry env s1 idx ?hkey = Some (NC_NOERR, Some p, s2)"
      and gc: "get_chunk env s2 p = Some (st, s3)" and st: "st \<noteq> NC_NOERR" "st \<noteq> NC_EEMPTY"
      by blast
    from create_entry_frame [OF ce] have c2: "cache s2 = cache s1" and k2: "brk s1 \<le> brk s2"
      and o2: "\<forall>q. q \<noteq> brk s1 \<longrightarrow> heap s2 q = heap s1 q" and p: "p = brk s1"
      by simp_all
    from get_chunk_elim [OF gc] obtain e buf bs where
        c3: "cache s3 = cache s2" and k3: "brk s3 = brk s2"
      and h3: "heap s3 = (heap s2)(p \<mapsto> e\<lparr>data := Some (store_into buf (chunksize (cache s2)) bs)\<rparr>)"
      by blast
    have c31: "cache s3 = cache s1" using c3 c2 by simp
    have o3: "\<forall>q. q \<noteq> brk s1 \<longrightarrow> heap s3 q = heap s1 q" using h3 o2 p by simp
    have k31: "brk s1 \<le> brk s3" using k3 k2 by simp
    from mk ce gc st have "read_miss env s idx ?hkey = Some (st, None, free_entry p s3)"
      by (simp add: read_miss_def read_done_def)
    moreover from wf_cache_free_fresh [OF wf1 c31 o3 k31]
    have "heap (free_entry p s3) = heap s1" using p by simp
    moreover have "cache (free_entry p s3) = cache s1" using c31 by (simp add: free_entry_def)
    ultimately show ?thesis using eq st sub dm by simp
  qed
qed

theorem read_miss_failure_cleanup_witness:
  "\<exists>s'. NCZ_read_cache_chunk (test_env (\<lambda>_. False)) ((test_state2 True False 1)\<lparr>allocs := [False]\<rparr>) [5]
            = Some (NC_ENOMEM, None, s')
      \<and> mru (cache s') = [1] \<and> xcache (cache s') = [(218, 1)] \<and> dom (heap s') = {1}"
proof -
  let ?env = "test_env (\<lambda>_. False)"
  let ?s = "(test_state2 True False 1)\<lparr>allocs := [False]\<rparr>"
  have wf: "wf_cache ?s" by (auto simp: wf_cache_def test_simps)
  have len: "ndims (cache ?s) \<le> length [5 :: size64]" by (simp add: test_simps)
  have miss: "ncxcachelookup (xcache (cache ?s)) (ncxcachekey ?env (take (ndims (cache ?s)) [5]))
      = (NC_ENOTFOUND, None)"
    by (simp add: test_simps)
  have "\<exists>s1. makeroom ?env ?s = Some (NC_NOERR, s1) \<and> mru (cache s1) = [1]
      \<and> xcache (cache s1) = [(218, 1)] \<and> allocs s1 = [False] \<and> dom (heap s1) = {1}"
    by (simp add: test_simps)
  then obtain s1 where mk: "makeroom ?env ?s = Some (NC_NOERR, s1)"
    and s1: "mru (cache s1) = [1]" "xcache (cache s1) = [(218, 1)]" "allocs s1 = [False]"
      "dom (heap s1) = {1}"
    by blast
  have "\<exists>ent s2. create_entry ?env s1 [5] (ncxcachekey ?env (take (ndims (cache ?s)) [5]))
      = Some (NC_ENOMEM, ent, s2)"
    using s1(3) by (simp add: create_entry_def calloc_def)
  then have fail: "(\<exists>ent s2. create_entry ?env s1 [5] (ncxcachekey ?env (take (ndims (cache ?s)) [5]))
                    = Some (NC_ENOMEM, ent, s2) \<and> NC_ENOMEM \<noteq> NC_NOERR)
             \<or> (\<exists>p s2 s3. create_entry ?env s1 [5] (ncxcachekey ?env (take (ndims (cache ?s)) [5]))
                    = Some (NC_NOERR, Some p, s2)
                  \<and> get_chunk ?env s2 p = Some (NC_ENOMEM, s3) \<and> NC_ENOMEM \<noteq> NC_NOERR
                  \<and> NC_ENOMEM \<noteq> NC_EEMPTY)"
    by simp
  from read_miss_failure_cleanup [OF wf len miss mk fail] s1 show ?thesis by auto
qed

end
